theory Spec2Isabelle
  imports Main "HOL-Library.Multiset"
begin

section \<open>Data model (types module)\<close>

text \<open>
  The board engine of GridGuard (module \<open>utils/gameLogic\<close>) works on a grid
  \<open>Cell[][]\<close>. A \<open>Cell\<close> is an object with the fields below; \<open>isExploded\<close> is
  optional in the source (\<open>isExploded?: boolean\<close>), hence a \<open>bool option\<close>. The
  numbers of the source (\<open>row\<close>, \<open>col\<close>, \<open>neighborMines\<close>, \<open>totalMines\<close>) are
  integers here. The field \<open>id\<close> of the source is called \<open>id_cell\<close>.
\<close>

record cell =
  id_cell :: string
  row :: int
  col :: int
  isMine :: bool
  isRevealed :: bool
  isFlagged :: bool
  isQuestioned :: bool
  neighborMines :: int
  isExploded :: "bool option"

type_synonym board = "cell list list"

text \<open>A \<open>Position\<close> is the pair \<open>{row, col}\<close>; a \<open>Direction\<close> the pair \<open>[dr, dc]\<close>.\<close>

type_synonym position = "int \<times> int"

text \<open>
  What a call can raise. \<open>TypeError\<close> is JavaScript's error for reading or writing
  a property of \<open>undefined\<close> (an index outside an array gives \<open>undefined\<close>).
  \<open>UndefinedStored\<close> marks the one place where the source would not raise but
  store \<open>undefined\<close> into a grid slot (the copy loop of \<open>revealCell\<close> reading past
  the end of a row): the grid is no \<open>Cell[][]\<close> any more, and the model stops there.
\<close>

datatype error = TypeError | UndefinedStored

section \<open>Constants\<close>

definition DIRECTIONS :: "(int \<times> int) list" where
  "DIRECTIONS =
     [(-1, -1), (-1, 0), (-1, 1),
      (0, -1),           (0, 1),
      (1, -1),  (1, 0),  (1, 1)]"

section \<open>Helpers of the embedding\<close>

text \<open>Decimal rendering of a number inside a template string.\<close>

definition digitChar :: "nat \<Rightarrow> char" where
  "digitChar d = char_of (48 + d)"

fun showNat :: "nat \<Rightarrow> string" where
  "showNat n = (if n < 10 then [digitChar n] else showNat (n div 10) @ [digitChar (n mod 10)])"

definition showInt :: "int \<Rightarrow> string" where
  "showInt i = (if i < 0 then CHR ''-'' # showNat (nat (- i)) else showNat (nat i))"

text \<open>
  \<open>cells[row][col]\<close> followed by a property access: outside the grid the element
  (or the row) is \<open>undefined\<close> and the access raises.
\<close>

definition cellAt :: "board \<Rightarrow> int \<Rightarrow> int \<Rightarrow> error + cell" where
  "cellAt cells r c =
     (if 0 \<le> r \<and> r < int (length cells) \<and> 0 \<le> c \<and> c < int (length (cells ! nat r))
      then Inr (cells ! nat r ! nat c) else Inl TypeError)"

text \<open>Assignment to the fields of the object at \<open>cells[row][col]\<close>, once it was read.\<close>

definition setCell :: "board \<Rightarrow> int \<Rightarrow> int \<Rightarrow> cell \<Rightarrow> board" where
  "setCell cells r c v = cells[nat r := (cells ! nat r)[nat c := v]]"

text \<open>\<open>cells.map(r => r.map(c => ({ ...c })))\<close>: a fresh grid of fresh objects.\<close>

definition copyCells :: "board \<Rightarrow> board" where
  "copyCells cells = map (\<lambda>r. map (\<lambda>c. c) r) cells"

text \<open>A \<open>forEach\<close> or \<open>for\<close> loop whose body may raise: the first error ends the loop.\<close>

fun foldE :: "('a \<Rightarrow> 's \<Rightarrow> error + 's) \<Rightarrow> 'a list \<Rightarrow> 's \<Rightarrow> error + 's" where
  "foldE f [] s = Inr s"
| "foldE f (x # xs) s = (case f x s of Inl e \<Rightarrow> Inl e | Inr s' \<Rightarrow> foldE f xs s')"

text \<open>The same for a body that may also run out of fuel (\<open>None\<close>).\<close>

fun foldEO :: "('a \<Rightarrow> 's \<Rightarrow> (error + 's) option) \<Rightarrow> 'a list \<Rightarrow> 's \<Rightarrow> (error + 's) option" where
  "foldEO f [] s = Some (Inr s)"
| "foldEO f (x # xs) s =
     (case f x s of None \<Rightarrow> None | Some (Inl e) \<Rightarrow> Some (Inl e) | Some (Inr s') \<Rightarrow> foldEO f xs s')"

text \<open>\<open>xs.filter(p)\<close> for a predicate that may raise.\<close>

fun filterE :: "('a \<Rightarrow> error + bool) \<Rightarrow> 'a list \<Rightarrow> error + 'a list" where
  "filterE p [] = Inr []"
| "filterE p (x # xs) =
     (case p x of
        Inl e \<Rightarrow> Inl e
      | Inr keep \<Rightarrow>
          (case filterE p xs of Inl e \<Rightarrow> Inl e | Inr ys \<Rightarrow> Inr (if keep then x # ys else ys)))"

text \<open>\<open>xs.slice(0, e)\<close>: a negative end counts from the end of the array.\<close>

definition slice0 :: "'a list \<Rightarrow> int \<Rightarrow> 'a list" where
  "slice0 xs e = (if e < 0 then take (nat (int (length xs) + e)) xs else take (nat e) xs)"

section \<open>Game logic (module utils/gameLogic)\<close>

definition generateCellId :: "int \<Rightarrow> int \<Rightarrow> string" where
  "generateCellId r c = ''cell-'' @ showInt r @ ''-'' @ showInt c"

definition createEmptyCell :: "int \<Rightarrow> int \<Rightarrow> cell" where
  "createEmptyCell r c =
     \<lparr> id_cell = generateCellId r c, row = r, col = c, isMine = False, isRevealed = False,
       isFlagged = False, isQuestioned = False, neighborMines = 0, isExploded = None \<rparr>"

text \<open>\<open>Array.from({ length: n }, f)\<close>: a negative length gives the empty array.\<close>

definition initializeEmptyBoard :: "int \<Rightarrow> int \<Rightarrow> board" where
  "initializeEmptyBoard rows cols =
     map (\<lambda>r. map (\<lambda>c. createEmptyCell (int r) (int c)) [0..<nat cols]) [0..<nat rows]"

definition isValidPosition :: "int \<Rightarrow> int \<Rightarrow> int \<Rightarrow> int \<Rightarrow> bool" where
  "isValidPosition r c rows cols \<longleftrightarrow> r \<ge> 0 \<and> r < rows \<and> c \<ge> 0 \<and> c < cols"

definition getNeighborPositions :: "int \<Rightarrow> int \<Rightarrow> int \<Rightarrow> int \<Rightarrow> position list" where
  "getNeighborPositions r c rows cols =
     filter (\<lambda>pos. isValidPosition (fst pos) (snd pos) rows cols)
       (map (\<lambda>(dr, dc). (r + dr, c + dc)) DIRECTIONS)"

subsection \<open>placeMines, calculateNeighborMines\<close>

text \<open>
  \<open>placeMines\<close> shuffles the available positions with
  \<open>[...availablePositions].sort(() => Math.random() - 0.5)\<close>. The outcome of that
  sort is the random source of the engine and is the parameter \<open>shuffle\<close> here.
  \<open>excludedPositions\<close> is a \<open>Set\<close> of cell ids.
\<close>

definition placeMines ::
  "(position list \<Rightarrow> position list) \<Rightarrow> board \<Rightarrow> int \<Rightarrow> position \<Rightarrow> error + board" where
  "placeMines shuffle cells totalMines firstClick =
     (case cells of
        [] \<Rightarrow> Inl TypeError
      | r0 # _ \<Rightarrow>
          (let rows = length cells; cols = length r0;
               newCells = copyCells cells;
               excludedPositions =
                 insert (generateCellId (fst firstClick) (snd firstClick))
                   (set (map (\<lambda>pos. generateCellId (fst pos) (snd pos))
                      (getNeighborPositions (fst firstClick) (snd firstClick) (int rows) (int cols))));
               availablePositions =
                 concat (map (\<lambda>r. concat (map (\<lambda>c.
                     if generateCellId (int r) (int c) \<notin> excludedPositions
                     then [(int r, int c)] else []) [0..<cols])) [0..<rows]);
               shuffled = shuffle availablePositions;
               minePositions = slice0 shuffled (min totalMines (int (length shuffled)))
           in foldE (\<lambda>pos nc.
                  case cellAt nc (fst pos) (snd pos) of
                    Inl e \<Rightarrow> Inl e
                  | Inr x \<Rightarrow> Inr (setCell nc (fst pos) (snd pos) (x\<lparr>isMine := True\<rparr>)))
                minePositions newCells))"

definition calculateNeighborMines :: "board \<Rightarrow> error + board" where
  "calculateNeighborMines cells =
     (case cells of
        [] \<Rightarrow> Inl TypeError
      | r0 # _ \<Rightarrow>
          (let rows = length cells; cols = length r0;
               newCells = copyCells cells
           in foldE (\<lambda>r. foldE (\<lambda>c nc.
                  case cellAt nc (int r) (int c) of
                    Inl e \<Rightarrow> Inl e
                  | Inr x \<Rightarrow>
                      if \<not> isMine x then
                        (case filterE (\<lambda>pos. case cellAt nc (fst pos) (snd pos) of
                                               Inl e \<Rightarrow> Inl e | Inr y \<Rightarrow> Inr (isMine y))
                                (getNeighborPositions (int r) (int c) (int rows) (int cols)) of
                           Inl e \<Rightarrow> Inl e
                         | Inr mines \<Rightarrow>
                             Inr (setCell nc (int r) (int c) (x\<lparr>neighborMines := int (length mines)\<rparr>)))
                      else Inr nc) [0..<cols]) [0..<rows] newCells))"

subsection \<open>toggleFlag, toggleQuestion\<close>

definition toggleFlag :: "board \<Rightarrow> int \<Rightarrow> int \<Rightarrow> error + board" where
  "toggleFlag cells r c =
     (let newCells = copyCells cells in
      case cellAt newCells r c of
        Inl e \<Rightarrow> Inl e
      | Inr cell \<Rightarrow>
          if \<not> isRevealed cell then
            (let cell1 = cell\<lparr>isFlagged := \<not> isFlagged cell\<rparr>;
                 cell2 = (if isFlagged cell1 then cell1\<lparr>isQuestioned := False\<rparr> else cell1)
             in Inr (setCell newCells r c cell2))
          else Inr newCells)"

definition toggleQuestion :: "board \<Rightarrow> int \<Rightarrow> int \<Rightarrow> error + board" where
  "toggleQuestion cells r c =
     (let newCells = copyCells cells in
      case cellAt newCells r c of
        Inl e \<Rightarrow> Inl e
      | Inr cell \<Rightarrow>
          if \<not> isRevealed cell \<and> \<not> isFlagged cell
          then Inr (setCell newCells r c (cell\<lparr>isQuestioned := \<not> isQuestioned cell\<rparr>))
          else Inr newCells)"

subsection \<open>checkWinCondition, revealAllMines\<close>

text \<open>\<open>cells[0].length\<close> raises on a grid with no row.\<close>

definition checkWinCondition :: "board \<Rightarrow> int \<Rightarrow> error + bool" where
  "checkWinCondition cells totalMines =
     (case cells of
        [] \<Rightarrow> Inl TypeError
      | r0 # _ \<Rightarrow>
          (let totalCells = int (length cells) * int (length r0);
               revealedCells = int (length (filter isRevealed (concat cells)))
           in Inr (revealedCells = totalCells - totalMines)))"

definition revealAllMines :: "board \<Rightarrow> int \<Rightarrow> int \<Rightarrow> board" where
  "revealAllMines cells explodedRow explodedCol =
     map (\<lambda>r. map (\<lambda>cell.
         cell\<lparr> isRevealed := (if isMine cell then True else isRevealed cell),
               isExploded := Some (isMine cell \<and> row cell = explodedRow \<and> col cell = explodedCol) \<rparr>) r)
       cells"

definition getFlagCount :: "board \<Rightarrow> nat" where
  "getFlagCount cells = length (filter isFlagged (concat cells))"

definition getRevealedCount :: "board \<Rightarrow> nat" where
  "getRevealedCount cells = length (filter isRevealed (concat cells))"

subsection \<open>revealCell\<close>

text \<open>
  The copy loop after a recursive reveal,
  \<open>for r < rows, c < cols: newCells[r][c] = revealed[r][c]\<close>, one assignment at a
  time. Reading \<open>revealed[r]\<close> or \<open>newCells[r]\<close> outside the grid raises; a value read
  past the end of a row of \<open>revealed\<close> is \<open>undefined\<close>; writing at the end of a row
  of \<open>newCells\<close> extends it.
\<close>

definition storeCell :: "board \<Rightarrow> nat \<Rightarrow> nat \<Rightarrow> board \<Rightarrow> error + board" where
  "storeCell revealed r c newCells =
     (if r < length revealed \<and> r < length newCells then
        (if c < length (revealed ! r) then
           (if c < length (newCells ! r)
            then Inr (newCells[r := (newCells ! r)[c := revealed ! r ! c]])
            else if c = length (newCells ! r)
            then Inr (newCells[r := newCells ! r @ [revealed ! r ! c]])
            else Inl UndefinedStored)
         else Inl UndefinedStored)
      else Inl TypeError)"

definition copyBack :: "nat \<Rightarrow> nat \<Rightarrow> board \<Rightarrow> board \<Rightarrow> error + board" where
  "copyBack rows cols revealed newCells =
     foldE (\<lambda>r. foldE (\<lambda>c. storeCell revealed r c) [0..<cols]) [0..<rows] newCells"

text \<open>
  The body of \<open>neighbors.forEach\<close>; \<open>rc\<close> is the recursive call. \<open>None\<close> is a call
  that did not return within the recursion depth allowed.
\<close>

definition revealNeighbor ::
  "(board \<Rightarrow> int \<Rightarrow> int \<Rightarrow> (error + board) option) \<Rightarrow> nat \<Rightarrow> nat \<Rightarrow> position \<Rightarrow> board
     \<Rightarrow> (error + board) option" where
  "revealNeighbor rc rows cols pos newCells =
     (case cellAt newCells (fst pos) (snd pos) of
        Inl e \<Rightarrow> Some (Inl e)
      | Inr n \<Rightarrow>
          if \<not> isRevealed n \<and> \<not> isFlagged n then
            (case rc newCells (fst pos) (snd pos) of
               None \<Rightarrow> None
             | Some (Inl e) \<Rightarrow> Some (Inl e)
             | Some (Inr revealed) \<Rightarrow> Some (copyBack rows cols revealed newCells))
          else Some (Inr newCells))"

text \<open>
  \<open>revealCell\<close> calls itself from inside the \<open>forEach\<close>. The first argument bounds
  the depth of the calls: \<open>revealCell d\<close> allows \<open>d\<close> nested calls and is \<open>None\<close>
  when they do not suffice.
\<close>

primrec revealCell :: "nat \<Rightarrow> board \<Rightarrow> int \<Rightarrow> int \<Rightarrow> (error + board) option" where
  "revealCell 0 cells r c = None"
| "revealCell (Suc d) cells r c =
     (case cells of
        [] \<Rightarrow> Some (Inl TypeError)
      | r0 # _ \<Rightarrow>
          (let rows = length cells; cols = length r0 in
           if \<not> isValidPosition r c (int rows) (int cols) then Some (Inr cells)
           else case cellAt cells r c of
             Inl e \<Rightarrow> Some (Inl e)
           | Inr cell \<Rightarrow>
               if isRevealed cell \<or> isFlagged cell then Some (Inr cells)
               else
                 (let newCells = setCell (copyCells cells) r c (cell\<lparr>isRevealed := True\<rparr>) in
                  if neighborMines cell = 0 \<and> \<not> isMine cell
                  then foldEO (revealNeighbor (revealCell d) rows cols)
                         (getNeighborPositions r c (int rows) (int cols)) newCells
                  else Some (Inr newCells))))"

section \<open>Notions used to state the properties\<close>

text \<open>
  A board of the data model is a non-empty rectangular grid: every row is as long as
  the first one. \<open>initializeEmptyBoard\<close> builds such grids and every operation keeps
  the shape.
\<close>

definition rect :: "board \<Rightarrow> bool" where
  "rect cells \<longleftrightarrow> cells \<noteq> [] \<and> list_all (\<lambda>r. length r = length (hd cells)) cells"

text \<open>Every cell carries its own coordinates, as \<open>createEmptyCell\<close> sets them.\<close>

definition coordsOk :: "board \<Rightarrow> bool" where
  "coordsOk cells \<longleftrightarrow>
     (\<forall>r < length cells. \<forall>c < length (cells ! r).
        row (cells ! r ! c) = int r \<and> col (cells ! r ! c) = int c)"

text \<open>
  A position is in bounds when \<open>isValidPosition\<close> accepts it for the dimensions that
  \<open>revealCell\<close> reads, \<open>cells.length\<close> and \<open>cells[0].length\<close>.
\<close>

definition inBoard :: "board \<Rightarrow> position \<Rightarrow> bool" where
  "inBoard cells p \<longleftrightarrow>
     isValidPosition (fst p) (snd p) (int (length cells)) (int (length (hd cells)))"

definition cellOf :: "board \<Rightarrow> position \<Rightarrow> cell" where
  "cellOf cells p = cells ! nat (fst p) ! nat (snd p)"

definition neighborsOf :: "board \<Rightarrow> position \<Rightarrow> position list" where
  "neighborsOf cells p =
     getNeighborPositions (fst p) (snd p) (int (length cells)) (int (length (hd cells)))"

text \<open>The cells that a reveal may open, and the cells from which the flood goes on.\<close>

definition hiddenUnflagged :: "board \<Rightarrow> position \<Rightarrow> bool" where
  "hiddenUnflagged cells p \<longleftrightarrow>
     inBoard cells p \<and> \<not> isRevealed (cellOf cells p) \<and> \<not> isFlagged (cellOf cells p)"

definition expands :: "board \<Rightarrow> position \<Rightarrow> bool" where
  "expands cells p \<longleftrightarrow> neighborMines (cellOf cells p) = 0 \<and> \<not> isMine (cellOf cells p)"

text \<open>
  \<open>floodReach cells p q\<close>: there is a chain of adjacent cells from \<open>p\<close> to \<open>q\<close>, all
  of them hidden and unflagged in \<open>cells\<close>, and all but the last with
  \<open>neighborMines = 0\<close> and no mine.
\<close>

inductive floodReach :: "board \<Rightarrow> position \<Rightarrow> position \<Rightarrow> bool" for cells p where
  start: "hiddenUnflagged cells p \<Longrightarrow> floodReach cells p p"
| step: "floodReach cells p q \<Longrightarrow> expands cells q \<Longrightarrow> q' \<in> set (neighborsOf cells q)
          \<Longrightarrow> hiddenUnflagged cells q' \<Longrightarrow> floodReach cells p q'"

text \<open>
  The region as the specification words it: the cells joined to \<open>p\<close> by a chain of
  adjacent cells with \<open>neighborMines = 0\<close>, whatever their marks.
\<close>

inductive zeroRegion :: "board \<Rightarrow> position \<Rightarrow> position \<Rightarrow> bool" for cells p where
  zstart: "inBoard cells p \<Longrightarrow> neighborMines (cellOf cells p) = 0 \<Longrightarrow> zeroRegion cells p p"
| zstep: "zeroRegion cells p q \<Longrightarrow> q' \<in> set (neighborsOf cells q)
          \<Longrightarrow> neighborMines (cellOf cells q') = 0 \<Longrightarrow> zeroRegion cells p q'"

definition allPositions :: "board \<Rightarrow> position list" where
  "allPositions cells =
     concat (map (\<lambda>r. map (\<lambda>c. (int r, int c)) [0..<length (hd cells)]) [0..<length cells])"

text \<open>
  The cells that may receive a mine: those outside the first click and its
  neighbourhood, that is, more than one step away from it in a row or a column.
\<close>

definition eligibleCount :: "board \<Rightarrow> position \<Rightarrow> nat" where
  "eligibleCount cells p =
     length (filter (\<lambda>q. \<not> (\<bar>fst q - fst p\<bar> \<le> 1 \<and> \<bar>snd q - snd p\<bar> \<le> 1)) (allPositions cells))"

text \<open>Every cell that is no mine counts the mines among its neighbours.\<close>

definition countsCorrect :: "board \<Rightarrow> bool" where
  "countsCorrect cells \<longleftrightarrow>
     list_all (\<lambda>q. isMine (cellOf cells q) \<or>
                 neighborMines (cellOf cells q)
                   = int (length (filter (\<lambda>n. isMine (cellOf cells n)) (neighborsOf cells q))))
       (allPositions cells)"

text \<open>\<open>cellLe x y\<close>: \<open>y\<close> is \<open>x\<close>, or \<open>x\<close> was hidden and \<open>y\<close> is \<open>x\<close> revealed.\<close>

definition cellLe :: "cell \<Rightarrow> cell \<Rightarrow> bool" where
  "cellLe x y \<longleftrightarrow> y = x \<or> (\<not> isRevealed x \<and> y = x\<lparr>isRevealed := True\<rparr>)"

definition revealsOnly :: "board \<Rightarrow> board \<Rightarrow> bool" where
  "revealsOnly cells cells' \<longleftrightarrow> list_all2 (list_all2 cellLe) cells cells'"

definition hiddenCount :: "board \<Rightarrow> nat" where
  "hiddenCount cells = length (filter (\<lambda>x. \<not> isRevealed x) (concat cells))"

definition floodSpec :: "board \<Rightarrow> position \<Rightarrow> board \<Rightarrow> bool" where
  "floodSpec cells p cells' \<longleftrightarrow>
     revealsOnly cells cells' \<and>
     (\<forall>q. inBoard cells q \<longrightarrow>
        (isRevealed (cellOf cells' q) \<longleftrightarrow> isRevealed (cellOf cells q) \<or> floodReach cells p q))"

text \<open>
  The cell invariant of the data model: no cell is both flagged and questioned, and a
  revealed cell is neither flagged nor questioned.
\<close>

definition cellInv :: "cell \<Rightarrow> bool" where
  "cellInv x \<longleftrightarrow>
     \<not> (isFlagged x \<and> isQuestioned x) \<and> (isRevealed x \<longrightarrow> \<not> isFlagged x \<and> \<not> isQuestioned x)"

definition boardInv :: "board \<Rightarrow> bool" where
  "boardInv cells \<longleftrightarrow> list_all (list_all cellInv) cells"

text \<open>The part of the invariant that a reveal keeps in every case.\<close>

definition cellInvWeak :: "cell \<Rightarrow> bool" where
  "cellInvWeak x \<longleftrightarrow> \<not> (isFlagged x \<and> isQuestioned x)"

subsection \<open>Example boards\<close>

text \<open>One row of three empty cells, none a mine; in \<open>exRow\<close> the middle one is flagged.\<close>

definition exOpen :: board where
  "exOpen = [[createEmptyCell 0 0, createEmptyCell 0 1, createEmptyCell 0 2]]"

definition exRow :: board where
  "exRow = [[createEmptyCell 0 0, (createEmptyCell 0 1)\<lparr>isFlagged := True\<rparr>, createEmptyCell 0 2]]"

definition exRow' :: board where
  "exRow' = [[(createEmptyCell 0 0)\<lparr>isRevealed := True\<rparr>,
              (createEmptyCell 0 1)\<lparr>isFlagged := True\<rparr>, createEmptyCell 0 2]]"

text \<open>One row with a mine at \<open>(0, 1)\<close> and the counts of its neighbours.\<close>

definition exMine :: board where
  "exMine = [[(createEmptyCell 0 0)\<lparr>neighborMines := 1\<rparr>, (createEmptyCell 0 1)\<lparr>isMine := True\<rparr>,
              (createEmptyCell 0 2)\<lparr>neighborMines := 1\<rparr>]]"

text \<open>A questioned hidden cell next to an empty one.\<close>

definition exQuestioned :: board where
  "exQuestioned = [[(createEmptyCell 0 0)\<lparr>isQuestioned := True\<rparr>, createEmptyCell 0 1]]"

text \<open>A flagged mine next to a cell that counts it.\<close>

definition exFlaggedMine :: board where
  "exFlaggedMine = [[(createEmptyCell 0 0)\<lparr>neighborMines := 1\<rparr>,
                     (createEmptyCell 0 1)\<lparr>isMine := True, isFlagged := True\<rparr>]]"

section \<open>Auxiliary lemmas\<close>

lemma copyCells_id [simp]: "copyCells cells = cells"
  by (simp add: copyCells_def)

lemma cellAt_Inr_iff:
  "cellAt cells r c = Inr x \<longleftrightarrow>
     0 \<le> r \<and> r < int (length cells) \<and> 0 \<le> c \<and> c < int (length (cells ! nat r)) \<and> x = cells ! nat r ! nat c"
  by (auto simp: cellAt_def)

lemma cellAt_setCell_same:
  "cellAt cells r c = Inr x \<Longrightarrow> cellAt (setCell cells r c v) r c = Inr v"
  by (auto simp: cellAt_def setCell_def split: if_splits)

lemma setCell_setCell:
  "setCell (setCell cells r c v) r c w = setCell cells r c w"
  by (cases "nat r < length cells") (simp_all add: setCell_def list_update_beyond)

lemma setCell_same:
  "cellAt cells r c = Inr x \<Longrightarrow> setCell cells r c x = cells"
  by (auto simp: cellAt_def setCell_def split: if_splits)

lemma rect_valid_cellAt:
  assumes "rect cells" "isValidPosition r c (int (length cells)) (int (length (hd cells)))"
  shows "cellAt cells r c = Inr (cells ! nat r ! nat c)"
proof -
  from assms have r: "0 \<le> r" "nat r < length cells" and c: "0 \<le> c" "nat c < length (hd cells)"
    by (auto simp: isValidPosition_def)
  from assms(1) r have "length (cells ! nat r) = length (hd cells)"
    by (simp add: rect_def list_all_length)
  with r c show ?thesis by (simp add: cellAt_def nat_less_iff)
qed

lemma rect_invalid_cellAt:
  assumes "rect cells" "\<not> isValidPosition r c (int (length cells)) (int (length (hd cells)))"
  shows "cellAt cells r c = Inl TypeError"
proof (cases "0 \<le> r \<and> r < int (length cells)")
  case True
  then have "nat r < length cells" by (simp add: nat_less_iff)
  with assms(1) have "length (cells ! nat r) = length (hd cells)"
    by (simp add: rect_def list_all_length)
  with True assms(2) show ?thesis by (auto simp: cellAt_def isValidPosition_def)
next
  case False
  then show ?thesis by (auto simp: cellAt_def)
qed

lemma foldE_append:
  "foldE f (xs @ ys) s = (case foldE f xs s of Inl e \<Rightarrow> Inl e | Inr s' \<Rightarrow> foldE f ys s')"
  by (induction xs arbitrary: s) (auto split: sum.splits)

lemma update_take_drop:
  assumes "k < length rv" "k < length nr"
  shows "(take k rv @ drop k nr)[k := rv ! k] = take (Suc k) rv @ drop (Suc k) nr"
proof -
  from assms have "drop k nr = nr ! k # drop (Suc k) nr"
    by (simp add: Cons_nth_drop_Suc)
  with assms show ?thesis
    by (simp add: list_update_append take_Suc_conv_app_nth)
qed

lemma copyBack_row:
  assumes "r < length revealed" "r < length nc"
    and "length (revealed ! r) = cols" "length (nc ! r) = cols" "k \<le> cols"
  shows "foldE (\<lambda>c. storeCell revealed r c) [0..<k] nc
           = Inr (nc[r := take k (revealed ! r) @ drop k (nc ! r)])"
  using assms(5)
proof (induction k)
  case 0
  then show ?case by simp
next
  case (Suc k)
  let ?s = "nc[r := take k (revealed ! r) @ drop k (nc ! r)]"
  from Suc have k: "k < cols" by simp
  with assms have row: "?s ! r = take k (revealed ! r) @ drop k (nc ! r)" and len: "length (?s ! r) = cols"
    by simp_all
  have "storeCell revealed r k ?s = Inr (?s[r := (?s ! r)[k := revealed ! r ! k]])"
    using assms(1-3) k len by (simp add: storeCell_def)
  also have "?s[r := (?s ! r)[k := revealed ! r ! k]]
      = nc[r := take (Suc k) (revealed ! r) @ drop (Suc k) (nc ! r)]"
    using assms k by (simp add: row update_take_drop)
  finally show ?case using Suc k by (simp add: foldE_append)
qed

lemma copyBack_rows:
  assumes "length revealed = rows" "length nc = rows"
    and "\<forall>r < rows. length (revealed ! r) = cols \<and> length (nc ! r) = cols"
    and "j \<le> rows"
  shows "foldE (\<lambda>r. foldE (\<lambda>c. storeCell revealed r c) [0..<cols]) [0..<j] nc
           = Inr (take j revealed @ drop j nc)"
  using assms(4)
proof (induction j)
  case 0
  then show ?case by simp
next
  case (Suc j)
  let ?s = "take j revealed @ drop j nc"
  from Suc have j: "j < rows" by simp
  with assms have sj: "?s ! j = nc ! j" and lens: "length ?s = rows"
    by (simp_all add: nth_append)
  have "foldE (\<lambda>c. storeCell revealed j c) [0..<cols] ?s
          = Inr (?s[j := take cols (revealed ! j) @ drop cols (?s ! j)])"
  proof (rule copyBack_row)
    show "j < length revealed" using assms j by simp
    show "j < length ?s" using lens j by simp
    show "length (revealed ! j) = cols" using assms j by simp
    show "length (?s ! j) = cols" using assms j sj by simp
    show "cols \<le> cols" by simp
  qed
  also have "?s[j := take cols (revealed ! j) @ drop cols (?s ! j)] = ?s[j := revealed ! j]"
    using assms j sj by simp
  also have "\<dots> = take (Suc j) revealed @ drop (Suc j) nc"
    using assms j by (simp add: update_take_drop)
  finally show ?case using Suc j by (simp add: foldE_append)
qed

lemma copyBack_same_shape:
  assumes "length revealed = rows" "length nc = rows"
    and "\<forall>r < rows. length (revealed ! r) = cols \<and> length (nc ! r) = cols"
  shows "copyBack rows cols revealed nc = Inr revealed"
  using copyBack_rows [OF assms, of rows] assms by (simp add: copyBack_def)

lemma cellLe_refl: "cellLe x x"
  by (simp add: cellLe_def)

lemma cellLe_trans: "cellLe x y \<Longrightarrow> cellLe y z \<Longrightarrow> cellLe x z"
  by (auto simp: cellLe_def)

lemma revealsOnly_refl: "revealsOnly b b"
  by (simp add: revealsOnly_def list_all2_refl cellLe_refl)

lemma row_le_trans:
  "list_all2 cellLe x y \<Longrightarrow> list_all2 cellLe y z \<Longrightarrow> list_all2 cellLe x z"
  using list_all2_trans [of cellLe cellLe cellLe x y z] cellLe_trans by blast

lemma revealsOnly_trans: "revealsOnly a b \<Longrightarrow> revealsOnly b c \<Longrightarrow> revealsOnly a c"
  unfolding revealsOnly_def
  using list_all2_trans [of "list_all2 cellLe" "list_all2 cellLe" "list_all2 cellLe" a b c]
    row_le_trans by blast

lemma revealsOnly_length: "revealsOnly b b' \<Longrightarrow> length b' = length b"
  by (simp add: revealsOnly_def list_all2_lengthD)

lemma revealsOnly_row_length:
  "revealsOnly b b' \<Longrightarrow> i < length b \<Longrightarrow> length (b' ! i) = length (b ! i)"
  by (auto simp: revealsOnly_def list_all2_conv_all_nth)

lemma revealsOnly_nth:
  "revealsOnly b b' \<Longrightarrow> i < length b \<Longrightarrow> j < length (b ! i) \<Longrightarrow> cellLe (b ! i ! j) (b' ! i ! j)"
  by (auto simp: revealsOnly_def list_all2_conv_all_nth)

lemma revealsOnly_hd_length:
  "revealsOnly b b' \<Longrightarrow> b \<noteq> [] \<Longrightarrow> length (hd b') = length (hd b)"
  using revealsOnly_row_length [of b b' 0] revealsOnly_length [of b b']
  by (cases b; cases b') auto

lemma rect_row_length: "rect b \<Longrightarrow> i < length b \<Longrightarrow> length (b ! i) = length (hd b)"
  by (simp add: rect_def list_all_length)

lemma revealsOnly_rect:
  assumes "rect b" "revealsOnly b b'"
  shows "rect b'"
proof -
  from assms have ne: "b \<noteq> []" "b' \<noteq> []"
    using revealsOnly_length [OF assms(2)] by (auto simp: rect_def)
  have "length (b' ! i) = length (hd b')" if "i < length b'" for i
    using that assms ne revealsOnly_row_length [of b b' i] revealsOnly_hd_length [of b b']
      revealsOnly_length [of b b'] rect_row_length [of b i] by simp
  with ne show ?thesis by (simp add: rect_def list_all_length)
qed

lemma revealsOnly_inBoard:
  "revealsOnly b b' \<Longrightarrow> b \<noteq> [] \<Longrightarrow> inBoard b' q = inBoard b q"
  by (simp add: inBoard_def revealsOnly_length revealsOnly_hd_length)

lemma revealsOnly_neighborsOf:
  "revealsOnly b b' \<Longrightarrow> b \<noteq> [] \<Longrightarrow> neighborsOf b' q = neighborsOf b q"
  by (simp add: neighborsOf_def revealsOnly_length revealsOnly_hd_length)

lemma inBoard_nat:
  assumes "rect b" "inBoard b q"
  shows "nat (fst q) < length b" "nat (snd q) < length (b ! nat (fst q))" "0 \<le> fst q" "0 \<le> snd q"
proof -
  from assms(2) show r: "nat (fst q) < length b" and "0 \<le> fst q" "0 \<le> snd q"
    by (auto simp: inBoard_def isValidPosition_def)
  from assms(2) have "nat (snd q) < length (hd b)"
    by (auto simp: inBoard_def isValidPosition_def)
  with rect_row_length [OF assms(1) r] show "nat (snd q) < length (b ! nat (fst q))" by simp
qed

lemma revealsOnly_cellOf:
  assumes "rect b" "revealsOnly b b'" "inBoard b q"
  shows "cellLe (cellOf b q) (cellOf b' q)"
  using revealsOnly_nth [OF assms(2) inBoard_nat(1,2) [OF assms(1,3)]]
  by (simp add: cellOf_def)

lemma cellLe_fields:
  assumes "cellLe x y"
  shows "isFlagged y = isFlagged x" "isMine y = isMine x" "neighborMines y = neighborMines x"
    "isQuestioned y = isQuestioned x" "isRevealed x \<Longrightarrow> isRevealed y"
    "id_cell y = id_cell x" "row y = row x" "col y = col x" "isExploded y = isExploded x"
  using assms by (auto simp: cellLe_def)

lemma hidden_row_le:
  "list_all2 cellLe xs ys \<Longrightarrow>
     length (filter (\<lambda>x. \<not> isRevealed x) ys) \<le> length (filter (\<lambda>x. \<not> isRevealed x) xs)"
  by (induction rule: list_all2_induct) (auto simp: cellLe_def)

lemma revealsOnly_hiddenCount:
  "revealsOnly b b' \<Longrightarrow> hiddenCount b' \<le> hiddenCount b"
  unfolding revealsOnly_def hiddenCount_def
proof (induction rule: list_all2_induct)
  case Nil
  then show ?case by simp
next
  case (Cons x xs y ys)
  with hidden_row_le [of x y] show ?case by simp
qed

lemma cellAt_cellOf:
  "rect b \<Longrightarrow> inBoard b (r, c) \<Longrightarrow> cellAt b r c = Inr (cellOf b (r, c))"
  using rect_valid_cellAt [of b r c] by (simp add: inBoard_def cellOf_def)

lemma neighborsOf_inBoard: "n \<in> set (neighborsOf b q) \<Longrightarrow> inBoard b n"
  by (auto simp: neighborsOf_def getNeighborPositions_def inBoard_def)

lemma rect_nonempty: "rect b \<Longrightarrow> b \<noteq> []"
  by (simp add: rect_def)

lemma hiddenUnflagged_mono:
  assumes "rect b" "revealsOnly b b'" "hiddenUnflagged b' q"
  shows "hiddenUnflagged b q"
proof -
  from assms have inb: "inBoard b q"
    by (simp add: hiddenUnflagged_def revealsOnly_inBoard rect_nonempty)
  from cellLe_fields [OF revealsOnly_cellOf [OF assms(1,2) inb]] assms(3) inb
  show ?thesis by (auto simp: hiddenUnflagged_def)
qed

lemma expands_revealsOnly:
  assumes "rect b" "revealsOnly b b'" "inBoard b q"
  shows "expands b' q = expands b q"
  using cellLe_fields [OF revealsOnly_cellOf [OF assms]] by (simp add: expands_def)

lemma floodReach_target: "floodReach b p q \<Longrightarrow> hiddenUnflagged b q"
  by (induction rule: floodReach.induct) auto

lemma floodReach_source: "floodReach b p q \<Longrightarrow> hiddenUnflagged b p"
  by (induction rule: floodReach.induct) auto

lemma floodReach_no_expand: "floodReach b p q \<Longrightarrow> \<not> expands b p \<Longrightarrow> q = p"
  by (induction rule: floodReach.induct) auto

lemma floodReach_trans: "floodReach b n q \<Longrightarrow> floodReach b p n \<Longrightarrow> floodReach b p q"
  by (induction rule: floodReach.induct) (auto intro: floodReach.step)

lemma floodReach_mono:
  assumes "rect b" "revealsOnly b b'" "floodReach b' p q"
  shows "floodReach b p q"
  using assms(3)
proof (induction rule: floodReach.induct)
  case start
  then show ?case using assms(1,2) by (auto intro: floodReach.start hiddenUnflagged_mono)
next
  case (step q q')
  from step.hyps(1) have "inBoard b' q" by (auto dest: floodReach_target simp: hiddenUnflagged_def)
  then have inb: "inBoard b q" using assms by (simp add: revealsOnly_inBoard rect_nonempty)
  have "expands b q" using step.hyps(2) expands_revealsOnly [OF assms(1,2) inb] by simp
  moreover have "q' \<in> set (neighborsOf b q)"
    using step.hyps(3) assms by (simp add: revealsOnly_neighborsOf rect_nonempty)
  moreover have "hiddenUnflagged b q'" using step.hyps(4) assms(1,2) by (rule hiddenUnflagged_mono [rotated 2])
  ultimately show ?case using step.IH by (auto intro: floodReach.step)
qed

lemma hiddenUnflagged_after:
  assumes "rect b" "revealsOnly b b1" "hiddenUnflagged b q"
    and "isRevealed (cellOf b1 q) \<longleftrightarrow> isRevealed (cellOf b q) \<or> W"
    and "\<not> W"
  shows "hiddenUnflagged b1 q"
proof -
  from assms(3) have inb: "inBoard b q" by (simp add: hiddenUnflagged_def)
  then have "inBoard b1 q" using assms by (simp add: revealsOnly_inBoard rect_nonempty)
  with cellLe_fields(1) [OF revealsOnly_cellOf [OF assms(1,2) inb]] assms(3-5)
  show ?thesis by (auto simp: hiddenUnflagged_def)
qed

lemma floodReach_split:
  assumes "rect b" "revealsOnly b b1"
    and spec: "\<And>q. inBoard b q \<Longrightarrow> (isRevealed (cellOf b1 q) \<longleftrightarrow> isRevealed (cellOf b q) \<or> W q)"
    and closed: "\<And>q q'. W q \<Longrightarrow> expands b q \<Longrightarrow> q' \<in> set (neighborsOf b q)
                   \<Longrightarrow> hiddenUnflagged b q' \<Longrightarrow> W q'"
    and "floodReach b m q"
  shows "W q \<or> floodReach b1 m q"
  using assms(5)
proof (induction rule: floodReach.induct)
  case start
  show ?case
  proof (cases "W m")
    case False
    from start have "inBoard b m" by (simp add: hiddenUnflagged_def)
    from hiddenUnflagged_after [OF assms(1,2) start spec [OF this] False]
    show ?thesis by (auto intro: floodReach.start)
  qed simp
next
  case (step q q')
  show ?case
  proof (cases "W q'")
    case False
    from step.hyps(4) have "inBoard b q'" by (simp add: hiddenUnflagged_def)
    from hiddenUnflagged_after [OF assms(1,2) step.hyps(4) spec [OF this] False]
    have hu: "hiddenUnflagged b1 q'" .
    from step.IH show ?thesis
    proof
      assume "W q"
      from closed [OF this step.hyps(2,3,4)] False show ?thesis by simp
    next
      assume fr: "floodReach b1 m q"
      from step.hyps(1) have inb: "inBoard b q"
        by (auto dest: floodReach_target simp: hiddenUnflagged_def)
      have "expands b1 q" using step.hyps(2) expands_revealsOnly [OF assms(1,2) inb] by simp
      moreover have "q' \<in> set (neighborsOf b1 q)"
        using step.hyps(3) assms(1,2) by (simp add: revealsOnly_neighborsOf rect_nonempty)
      ultimately show ?thesis using fr hu by (auto intro: floodReach.step)
    qed
  qed simp
qed

lemma floodReach_first_step:
  assumes "rect b" "revealsOnly b b1"
    and hu: "\<And>x. hiddenUnflagged b x \<Longrightarrow> x \<noteq> p \<Longrightarrow> hiddenUnflagged b1 x"
    and "floodReach b p q"
  shows "q = p \<or> (\<exists>n \<in> set (neighborsOf b p). floodReach b1 n q)"
  using assms(4)
proof (induction rule: floodReach.induct)
  case start
  then show ?case by simp
next
  case (step q q')
  show ?case
  proof (cases "q' = p")
    case False
    with hu [OF step.hyps(4)] have hu1: "hiddenUnflagged b1 q'" by simp
    from step.IH show ?thesis
    proof
      assume "q = p"
      with step.hyps(3) hu1 show ?thesis by (auto intro: floodReach.start)
    next
      assume "\<exists>n \<in> set (neighborsOf b p). floodReach b1 n q"
      then obtain n where n: "n \<in> set (neighborsOf b p)" "floodReach b1 n q" by blast
      from step.hyps(1) have inb: "inBoard b q"
        by (auto dest: floodReach_target simp: hiddenUnflagged_def)
      have "expands b1 q" using step.hyps(2) expands_revealsOnly [OF assms(1,2) inb] by simp
      moreover have "q' \<in> set (neighborsOf b1 q)"
        using step.hyps(3) assms(1,2) by (simp add: revealsOnly_neighborsOf rect_nonempty)
      ultimately have "floodReach b1 n q'" using n(2) hu1 by (auto intro: floodReach.step)
      with n(1) show ?thesis by blast
    qed
  qed simp
qed

text \<open>Revealing one hidden cell.\<close>

lemma filter_update_less:
  "i < length xs \<Longrightarrow> P (xs ! i) \<Longrightarrow> \<not> P v \<Longrightarrow>
     length (filter P (xs[i := v])) < length (filter P xs)"
proof (induction xs arbitrary: i)
  case Nil
  then show ?case by simp
next
  case (Cons a xs)
  then show ?case by (cases i) auto
qed

lemma concat_update_less:
  "r < length b \<Longrightarrow> length (filter P row') < length (filter P (b ! r)) \<Longrightarrow>
     length (filter P (concat (b[r := row']))) < length (filter P (concat b))"
proof (induction b arbitrary: r)
  case Nil
  then show ?case by simp
next
  case (Cons a b)
  then show ?case by (cases r) auto
qed

lemma reveal_one:
  assumes "rect b" "inBoard b (r, c)" "\<not> isRevealed (cellOf b (r, c))"
  defines "b1 \<equiv> setCell b r c ((cellOf b (r, c))\<lparr>isRevealed := True\<rparr>)"
  shows "revealsOnly b b1"
    and "hiddenCount b1 < hiddenCount b"
    and "\<And>q. inBoard b q \<Longrightarrow>
           cellOf b1 q = (if q = (r, c) then (cellOf b (r, c))\<lparr>isRevealed := True\<rparr> else cellOf b q)"
proof -
  from inBoard_nat [OF assms(1,2)]
  have r: "nat r < length b" "0 \<le> r" and c: "nat c < length (b ! nat r)" "0 \<le> c" by simp_all
  let ?x = "b ! nat r ! nat c"
  let ?row = "(b ! nat r)[nat c := ?x\<lparr>isRevealed := True\<rparr>]"
  have b1: "b1 = b[nat r := ?row]" by (simp add: b1_def setCell_def cellOf_def)
  have row: "list_all2 cellLe (b ! nat r) ?row"
    using assms(3) c by (auto simp: list_all2_conv_all_nth nth_list_update cellLe_def cellOf_def)
  show "revealsOnly b b1"
    unfolding revealsOnly_def b1 using r row
    by (auto simp: list_all2_conv_all_nth nth_list_update cellLe_refl)
  have "length (filter (\<lambda>x. \<not> isRevealed x) ?row) < length (filter (\<lambda>x. \<not> isRevealed x) (b ! nat r))"
    using c assms(3) by (intro filter_update_less) (simp_all add: cellOf_def)
  then show "hiddenCount b1 < hiddenCount b"
    unfolding hiddenCount_def b1 using r by (intro concat_update_less)
  show "cellOf b1 q = (if q = (r, c) then (cellOf b (r, c))\<lparr>isRevealed := True\<rparr> else cellOf b q)"
    if "inBoard b q" for q
  proof -
    from inBoard_nat [OF assms(1) that]
    have q: "nat (fst q) < length b" "0 \<le> fst q" "nat (snd q) < length (b ! nat (fst q))" "0 \<le> snd q"
      by simp_all
    have eq: "q = (r, c) \<longleftrightarrow> nat (fst q) = nat r \<and> nat (snd q) = nat c"
      using q r c by (cases q) auto
    show ?thesis
      unfolding b1 cellOf_def using q r c eq by (auto simp: nth_list_update)
  qed
qed

lemma floodSpec_not_hidden:
  "\<not> hiddenUnflagged b p \<Longrightarrow> floodSpec b p b"
  by (auto simp: floodSpec_def revealsOnly_refl dest: floodReach_source)

lemma revealNeighbor_step:
  assumes IH: "\<And>b r c. rect b \<Longrightarrow> hiddenCount b < d \<Longrightarrow>
                 \<exists>b'. revealCell d b r c = Some (Inr b') \<and> floodSpec b (r, c) b'"
    and "rect acc" "hiddenCount acc < d" "inBoard acc n"
  shows "\<exists>b1. revealNeighbor (revealCell d) (length acc) (length (hd acc)) n acc = Some (Inr b1)
              \<and> floodSpec acc n b1"
proof -
  have at: "cellAt acc (fst n) (snd n) = Inr (cellOf acc n)"
    using cellAt_cellOf [of acc "fst n" "snd n"] assms(2,4) by simp
  show ?thesis
  proof (cases "hiddenUnflagged acc n")
    case True
    from IH [OF assms(2,3), of "fst n" "snd n"]
    obtain b1 where b1: "revealCell d acc (fst n) (snd n) = Some (Inr b1)" "floodSpec acc n b1"
      by auto
    then have ro: "revealsOnly acc b1" by (simp add: floodSpec_def)
    have "copyBack (length acc) (length (hd acc)) b1 acc = Inr b1"
    proof (rule copyBack_same_shape)
      show "length b1 = length acc" using ro by (rule revealsOnly_length)
      show "length acc = length acc" by simp
      show "\<forall>r<length acc. length (b1 ! r) = length (hd acc) \<and> length (acc ! r) = length (hd acc)"
        using revealsOnly_row_length [OF ro] rect_row_length [OF assms(2)] by simp
    qed
    with True at b1 show ?thesis
      by (simp add: revealNeighbor_def hiddenUnflagged_def assms(4))
  next
    case False
    with at assms(4) have "revealNeighbor (revealCell d) (length acc) (length (hd acc)) n acc = Some (Inr acc)"
      by (auto simp: revealNeighbor_def hiddenUnflagged_def)
    with floodSpec_not_hidden [OF False] show ?thesis by simp
  qed
qed

lemma revealNeighbors_loop:
  assumes IH: "\<And>b r c. rect b \<Longrightarrow> hiddenCount b < d \<Longrightarrow>
                 \<exists>b'. revealCell d b r c = Some (Inr b') \<and> floodSpec b (r, c) b'"
  shows "rect acc \<Longrightarrow> hiddenCount acc < d \<Longrightarrow> \<forall>n \<in> set ns. inBoard acc n \<Longrightarrow>
     \<exists>acc'. foldEO (revealNeighbor (revealCell d) (length acc) (length (hd acc))) ns acc = Some (Inr acc')
        \<and> revealsOnly acc acc'
        \<and> (\<forall>q. inBoard acc q \<longrightarrow>
              (isRevealed (cellOf acc' q) \<longleftrightarrow>
                 isRevealed (cellOf acc q) \<or> (\<exists>n \<in> set ns. floodReach acc n q)))"
proof (induction ns arbitrary: acc)
  case Nil
  then show ?case by (simp add: revealsOnly_refl)
next
  case (Cons n ns)
  from Cons.prems have inb: "inBoard acc n" by simp
  from revealNeighbor_step [OF IH Cons.prems(1,2) inb]
  obtain b1 where b1: "revealNeighbor (revealCell d) (length acc) (length (hd acc)) n acc = Some (Inr b1)"
    and spec1: "floodSpec acc n b1" by blast
  from spec1 have ro1: "revealsOnly acc b1"
    and rev1: "\<And>q. inBoard acc q \<Longrightarrow>
                 (isRevealed (cellOf b1 q) \<longleftrightarrow> isRevealed (cellOf acc q) \<or> floodReach acc n q)"
    unfolding floodSpec_def by blast+
  have ne: "acc \<noteq> []" using Cons.prems(1) by (rule rect_nonempty)
  have rect1: "rect b1" using Cons.prems(1) ro1 by (rule revealsOnly_rect)
  have hid1: "hiddenCount b1 < d" using revealsOnly_hiddenCount [OF ro1] Cons.prems(2) by simp
  have dims: "length b1 = length acc" "length (hd b1) = length (hd acc)"
    using ro1 ne by (simp_all add: revealsOnly_length revealsOnly_hd_length)
  have inb1: "\<forall>m \<in> set ns. inBoard b1 m"
    using Cons.prems(3) ro1 ne by (simp add: revealsOnly_inBoard)
  from Cons.IH [OF rect1 hid1 inb1]
  obtain acc' where acc': "foldEO (revealNeighbor (revealCell d) (length acc) (length (hd acc))) ns b1
                             = Some (Inr acc')"
    and ro2: "revealsOnly b1 acc'"
    and rev2: "\<And>q. inBoard b1 q \<Longrightarrow>
                 (isRevealed (cellOf acc' q) \<longleftrightarrow>
                    isRevealed (cellOf b1 q) \<or> (\<exists>m \<in> set ns. floodReach b1 m q))"
    unfolding dims by blast
  have "foldEO (revealNeighbor (revealCell d) (length acc) (length (hd acc))) (n # ns) acc = Some (Inr acc')"
    using b1 acc' by simp
  moreover have "revealsOnly acc acc'" using ro1 ro2 by (rule revealsOnly_trans)
  moreover have "isRevealed (cellOf acc' q) \<longleftrightarrow>
                   isRevealed (cellOf acc q) \<or> (\<exists>m \<in> set (n # ns). floodReach acc m q)"
    if q: "inBoard acc q" for q
  proof -
    from q have q1: "inBoard b1 q" using ro1 ne by (simp add: revealsOnly_inBoard)
    have fwd: "floodReach acc m q" if "floodReach b1 m q" for m
      using Cons.prems(1) ro1 that by (rule floodReach_mono)
    have bwd: "floodReach acc n q \<or> floodReach b1 m q" if "floodReach acc m q" for m
      using Cons.prems(1) ro1 rev1 _ that
      by (rule floodReach_split [where W = "floodReach acc n"]) (auto intro: floodReach.step)
    have "isRevealed (cellOf acc' q) \<longleftrightarrow>
            isRevealed (cellOf acc q) \<or> floodReach acc n q \<or> (\<exists>m \<in> set ns. floodReach acc m q)"
      using rev2 [OF q1] rev1 [OF q] fwd bwd by blast
    then show ?thesis by simp
  qed
  ultimately show ?case by blast
qed

lemma revealCell_flood:
  "rect cells \<Longrightarrow> hiddenCount cells < d \<Longrightarrow>
     \<exists>cells'. revealCell d cells r c = Some (Inr cells') \<and> floodSpec cells (r, c) cells'"
proof (induction d arbitrary: cells r c)
  case 0
  then show ?case by simp
next
  case (Suc d)
  let ?p = "(r, c)"
  from Suc.prems(1) obtain r0 rest where cells: "cells = r0 # rest"
    by (cases cells) (auto simp: rect_def)
  then have hd: "length r0 = length (hd cells)" by simp
  show ?case
  proof (cases "hiddenUnflagged cells ?p")
    case False
    have "revealCell (Suc d) cells r c = Some (Inr cells)"
    proof (cases "inBoard cells ?p")
      case True
      with False cellAt_cellOf [OF Suc.prems(1) True] show ?thesis
        by (auto simp: cells Let_def hiddenUnflagged_def inBoard_def)
    next
      case False
      then show ?thesis by (simp add: cells Let_def inBoard_def)
    qed
    with floodSpec_not_hidden [OF False] show ?thesis by simp
  next
    case True
    then have inb: "inBoard cells ?p" and hid: "\<not> isRevealed (cellOf cells ?p)"
      and unfl: "\<not> isFlagged (cellOf cells ?p)"
      by (simp_all add: hiddenUnflagged_def)
    let ?b1 = "setCell cells r c ((cellOf cells ?p)\<lparr>isRevealed := True\<rparr>)"
    note one = reveal_one [OF Suc.prems(1) inb hid]
    have ne: "cells \<noteq> []" by (simp add: cells)
    have rect1: "rect ?b1" using Suc.prems(1) one(1) by (rule revealsOnly_rect)
    have dims: "length ?b1 = length cells" "length (hd ?b1) = length (hd cells)"
      using one(1) ne by (simp_all add: revealsOnly_length revealsOnly_hd_length)
    have hu1: "hiddenUnflagged ?b1 x" if "hiddenUnflagged cells x" "x \<noteq> ?p" for x
      using that one(3) [of x] revealsOnly_inBoard [OF one(1) ne, of x]
      by (simp add: hiddenUnflagged_def)
    have start: "floodReach cells ?p ?p" using True by (rule floodReach.start)
    show ?thesis
    proof (cases "expands cells ?p")
      case False
      have res: "revealCell (Suc d) cells r c = Some (Inr ?b1)"
        using False inb hid unfl cellAt_cellOf [OF Suc.prems(1) inb]
        by (auto simp: cells Let_def inBoard_def expands_def)
      have "isRevealed (cellOf ?b1 q) \<longleftrightarrow> isRevealed (cellOf cells q) \<or> floodReach cells ?p q"
        if "inBoard cells q" for q
        using one(3) [OF that] start floodReach_no_expand [OF _ False, of q] hid by auto
      with one(1) res show ?thesis by (simp add: floodSpec_def)
    next
      case exp: True
      have hid1: "hiddenCount ?b1 < d" using one(2) Suc.prems(2) by simp
      have nb: "\<forall>n \<in> set (neighborsOf cells ?p). inBoard ?b1 n"
        using revealsOnly_inBoard [OF one(1) ne] by (auto dest: neighborsOf_inBoard)
      from revealNeighbors_loop [OF Suc.IH rect1 hid1 nb]
      obtain acc' where loop: "foldEO (revealNeighbor (revealCell d) (length cells) (length (hd cells)))
                                  (neighborsOf cells ?p) ?b1 = Some (Inr acc')"
        and ro2: "revealsOnly ?b1 acc'"
        and rev2: "\<And>q. inBoard ?b1 q \<Longrightarrow>
                 (isRevealed (cellOf acc' q) \<longleftrightarrow>
                    isRevealed (cellOf ?b1 q) \<or> (\<exists>n \<in> set (neighborsOf cells ?p). floodReach ?b1 n q))"
        unfolding dims by blast
      have res: "revealCell (Suc d) cells r c = Some (Inr acc')"
        using exp inb hid unfl cellAt_cellOf [OF Suc.prems(1) inb] loop
        by (auto simp: cells Let_def inBoard_def expands_def neighborsOf_def)
      have ro: "revealsOnly cells acc'" using one(1) ro2 by (rule revealsOnly_trans)
      have "isRevealed (cellOf acc' q) \<longleftrightarrow> isRevealed (cellOf cells q) \<or> floodReach cells ?p q"
        if q: "inBoard cells q" for q
      proof -
        from q have q1: "inBoard ?b1 q" using one(1) ne by (simp add: revealsOnly_inBoard)
        have fwd: "floodReach cells ?p q" if n: "n \<in> set (neighborsOf cells ?p)" and fr: "floodReach ?b1 n q" for n
        proof -
          from fr have frn: "floodReach cells n q" using Suc.prems(1) one(1) by (rule floodReach_mono [rotated 2])
          then have "hiddenUnflagged cells n" by (rule floodReach_source)
          with start exp n have "floodReach cells ?p n" by (rule floodReach.step)
          with frn show ?thesis by (rule floodReach_trans)
        qed
        have bwd: "q = ?p \<or> (\<exists>n \<in> set (neighborsOf cells ?p). floodReach ?b1 n q)" if "floodReach cells ?p q"
          using Suc.prems(1) one(1) hu1 that by (rule floodReach_first_step)
        have "isRevealed (cellOf ?b1 q) \<longleftrightarrow> isRevealed (cellOf cells q) \<or> q = ?p"
          using one(3) [OF q] by simp
        with rev2 [OF q1] fwd bwd start show ?thesis by blast
      qed
      with ro res show ?thesis by (simp add: floodSpec_def)
    qed
  qed
qed

subsection \<open>The depth bound only matters when it is too small\<close>

lemma foldEO_mono:
  assumes "\<And>x s res. f x s = Some res \<Longrightarrow> g x s = Some res"
  shows "foldEO f xs s = Some res \<Longrightarrow> foldEO g xs s = Some res"
proof (induction xs arbitrary: s)
  case Nil
  then show ?case by simp
next
  case (Cons x xs)
  then show ?case
    by (cases "f x s") (auto simp: assms split: sum.splits)
qed

lemma revealNeighbor_mono:
  assumes "\<And>b r c res. rc b r c = Some res \<Longrightarrow> rc' b r c = Some res"
  shows "revealNeighbor rc rows cols n acc = Some res \<Longrightarrow> revealNeighbor rc' rows cols n acc = Some res"
  unfolding revealNeighbor_def
  by (cases "rc acc (fst n) (snd n)") (auto simp: assms split: sum.splits if_splits)

lemma revealCell_Suc:
  "revealCell d cells r c = Some res \<Longrightarrow> revealCell (Suc d) cells r c = Some res"
proof (induction d arbitrary: cells r c res)
  case 0
  then show ?case by simp
next
  case (Suc d)
  have step: "foldEO (revealNeighbor (revealCell d) rows cols) ns s = Some res'
        \<Longrightarrow> foldEO (revealNeighbor (revealCell (Suc d)) rows cols) ns s = Some res'" for rows cols ns s res'
    by (rule foldEO_mono [rotated], assumption, rule revealNeighbor_mono [rotated], assumption, rule Suc.IH)
  from Suc.prems show ?case
    apply (subst revealCell.simps(2))
    apply (subst (asm) revealCell.simps(2))
    apply (auto simp del: revealCell.simps simp: Let_def split: list.splits sum.splits if_splits intro: step)
    done
qed

lemma revealCell_mono:
  "d \<le> d' \<Longrightarrow> revealCell d cells r c = Some res \<Longrightarrow> revealCell d' cells r c = Some res"
proof (induction d' rule: nat_induct_at_least [of d])
  case base
  then show ?case .
next
  case (Suc n)
  from Suc.IH [OF Suc.prems] show ?case by (rule revealCell_Suc)
qed

lemma revealCell_result:
  assumes "rect cells" "revealCell d cells r c = Some res"
  shows "\<exists>cells'. res = Inr cells' \<and> floodSpec cells (r, c) cells'"
proof -
  let ?D = "max d (Suc (hiddenCount cells))"
  from revealCell_mono [OF _ assms(2), of ?D] have "revealCell ?D cells r c = Some res" by simp
  moreover have "hiddenCount cells < ?D" by simp
  from revealCell_flood [OF assms(1) this, of r c]
  obtain cells' where "revealCell ?D cells r c = Some (Inr cells')" "floodSpec cells (r, c) cells'"
    by auto
  ultimately show ?thesis by auto
qed

subsection \<open>Counting cells, the zero region\<close>

lemma length_concat_uniform:
  "(\<forall>row \<in> set xss. length row = n) \<Longrightarrow> length (concat xss) = length xss * n"
  by (induction xss) auto

lemma rect_length_concat: "rect b \<Longrightarrow> length (concat b) = length b * length (hd b)"
  unfolding rect_def list_all_iff by (rule length_concat_uniform) blast

lemma inBoard_allPositions: "inBoard b q \<Longrightarrow> q \<in> set (allPositions b)"
proof -
  assume "inBoard b q"
  then have "nat (fst q) < length b" "nat (snd q) < length (hd b)"
    "q = (int (nat (fst q)), int (nat (snd q)))"
    by (auto simp: inBoard_def isValidPosition_def)
  then obtain i j where ij: "i < length b" "j < length (hd b)" "q = (int i, int j)" by blast
  have "(int i, int j) \<in> set (map (\<lambda>c. (int i, int c)) [0..<length (hd b)])"
    using ij(2) by simp
  moreover have "map (\<lambda>c. (int i, int c)) [0..<length (hd b)]
      \<in> set (map (\<lambda>r. map (\<lambda>c. (int r, int c)) [0..<length (hd b)]) [0..<length b])"
    unfolding set_map using ij(1) by (intro image_eqI [of _ _ i]) auto
  ultimately show ?thesis unfolding allPositions_def ij(3) set_concat by blast
qed

lemma countsCorrect_no_mine_neighbor:
  assumes "countsCorrect b" "inBoard b q" "expands b q" "n \<in> set (neighborsOf b q)"
  shows "\<not> isMine (cellOf b n)"
proof -
  from assms(1) inBoard_allPositions [OF assms(2)] assms(3)
  have "length (filter (\<lambda>n. isMine (cellOf b n)) (neighborsOf b q)) = 0"
    by (auto simp: countsCorrect_def list_all_iff expands_def)
  then have "filter (\<lambda>n. isMine (cellOf b n)) (neighborsOf b q) = []" by simp
  with assms(4) show ?thesis by (auto simp: filter_empty_conv)
qed

lemma zeroRegion_floodReach:
  assumes fresh: "\<And>q. inBoard b q \<Longrightarrow> \<not> isRevealed (cellOf b q) \<and> \<not> isFlagged (cellOf b q)"
    and "countsCorrect b" "\<not> isMine (cellOf b p)" "zeroRegion b p q"
  shows "floodReach b p q \<and> expands b q"
  using assms(4)
proof (induction rule: zeroRegion.induct)
  case zstart
  with fresh [of p] assms(3) show ?case
    by (auto simp: expands_def hiddenUnflagged_def intro!: floodReach.start)
next
  case (zstep q q')
  then have fr: "floodReach b p q" and ex: "expands b q" by simp_all
  from fr have inb: "inBoard b q" by (auto dest: floodReach_target simp: hiddenUnflagged_def)
  from zstep.hyps(2) have inb': "inBoard b q'" by (rule neighborsOf_inBoard)
  with fresh [of q'] have hu: "hiddenUnflagged b q'" by (simp add: hiddenUnflagged_def)
  from countsCorrect_no_mine_neighbor [OF assms(2) inb ex zstep.hyps(2)] zstep.hyps(3)
  have "expands b q'" by (simp add: expands_def)
  with fr ex zstep.hyps(2) hu show ?case by (auto intro: floodReach.step)
qed

lemma hidden_row_less:
  "list_all2 cellLe xs ys \<Longrightarrow> j < length xs \<Longrightarrow> \<not> isRevealed (xs ! j) \<Longrightarrow> isRevealed (ys ! j)
     \<Longrightarrow> length (filter (\<lambda>x. \<not> isRevealed x) ys) < length (filter (\<lambda>x. \<not> isRevealed x) xs)"
proof (induction arbitrary: j rule: list_all2_induct)
  case Nil
  then show ?case by simp
next
  case (Cons x xs y ys)
  show ?case
  proof (cases j)
    case 0
    with Cons.prems hidden_row_le [OF Cons.hyps(2)] show ?thesis by simp
  next
    case (Suc k)
    with Cons.prems Cons.IH [of k] Cons.hyps(1) show ?thesis by (auto simp: cellLe_def)
  qed
qed

lemma hiddenCount_less:
  assumes "revealsOnly b b'" "i < length b" "j < length (b ! i)"
    and "\<not> isRevealed (b ! i ! j)" "isRevealed (b' ! i ! j)"
  shows "hiddenCount b' < hiddenCount b"
  using assms unfolding revealsOnly_def hiddenCount_def
proof (induction arbitrary: i rule: list_all2_induct)
  case Nil
  then show ?case by simp
next
  case (Cons x xs y ys)
  have tl: "length (filter (\<lambda>x. \<not> isRevealed x) (concat ys)) \<le> length (filter (\<lambda>x. \<not> isRevealed x) (concat xs))"
    using revealsOnly_hiddenCount [of xs ys] Cons.hyps(2) by (simp add: revealsOnly_def hiddenCount_def)
  show ?case
  proof (cases i)
    case 0
    with Cons.prems hidden_row_less [OF Cons.hyps(1), of j] tl show ?thesis by simp
  next
    case (Suc k)
    with Cons.prems Cons.IH [of k] hidden_row_le [OF Cons.hyps(1)] show ?thesis by simp
  qed
qed

subsection \<open>Evaluation on the example boards\<close>

lemmas ex_defs = exOpen_def exRow_def exRow'_def exMine_def exQuestioned_def createEmptyCell_def
lemmas run_defs = Let_def isValidPosition_def cellAt_def setCell_def getNeighborPositions_def
  DIRECTIONS_def revealNeighbor_def copyBack_def storeCell_def eval_nat_numeral

lemma exOpen_rect: "rect exOpen"
  by (simp add: rect_def ex_defs)

lemma exOpen_hidden: "hiddenCount exOpen = 3"
  by (simp add: hiddenCount_def ex_defs)

lemma exOpen_reach: "floodReach exOpen (0, 0) (0, 2)"
proof -
  have nb: "neighborsOf exOpen (0, 0) = [(0, 1)]" "neighborsOf exOpen (0, 1) = [(0, 0), (0, 2)]"
    by (simp_all add: neighborsOf_def ex_defs run_defs)
  have hu: "hiddenUnflagged exOpen (0, 0)" "hiddenUnflagged exOpen (0, 1)" "hiddenUnflagged exOpen (0, 2)"
    by (simp_all add: hiddenUnflagged_def inBoard_def cellOf_def ex_defs run_defs)
  have ex: "expands exOpen (0, 0)" "expands exOpen (0, 1)"
    by (simp_all add: expands_def cellOf_def ex_defs)
  have "floodReach exOpen (0, 0) (0, 0)" using hu(1) by (rule floodReach.start)
  then have "floodReach exOpen (0, 0) (0, 1)" using ex(1) _ hu(2) by (rule floodReach.step) (simp add: nb)
  then show ?thesis using ex(2) _ hu(3) by (rule floodReach.step) (simp add: nb)
qed

subsection \<open>The cell invariant\<close>

lemma foldE_preserves:
  assumes "\<And>x s s'. I s \<Longrightarrow> f x s = Inr s' \<Longrightarrow> I s'"
  shows "I s \<Longrightarrow> foldE f xs s = Inr s' \<Longrightarrow> I s'"
proof (induction xs arbitrary: s)
  case Nil
  then show ?case by simp
next
  case (Cons x xs)
  then show ?case by (cases "f x s") (auto dest: assms)
qed

lemma list_all_update: "list_all P xs \<Longrightarrow> P v \<Longrightarrow> list_all P (xs[i := v])"
  by (induction xs arbitrary: i) (auto split: nat.splits)

lemma setCell_list_all:
  assumes "list_all (list_all P) b" "P v"
  shows "list_all (list_all P) (setCell b r c v)"
proof (cases "nat r < length b")
  case True
  with assms(1) have "list_all P (b ! nat r)" by (simp add: list_all_length)
  with assms show ?thesis unfolding setCell_def by (intro list_all_update)
next
  case False
  with assms show ?thesis by (simp add: setCell_def list_update_beyond)
qed

lemma cellAt_list_all:
  "list_all (list_all P) b \<Longrightarrow> cellAt b r c = Inr x \<Longrightarrow> P x"
  by (auto simp: cellAt_Inr_iff list_all_length)

lemma toggleFlag_inv: "boardInv b \<Longrightarrow> toggleFlag b r c = Inr b' \<Longrightarrow> boardInv b'"
  unfolding boardInv_def toggleFlag_def
  by (auto simp: Let_def split: sum.splits if_splits
      intro!: setCell_list_all dest: cellAt_list_all simp: cellInv_def)

lemma toggleQuestion_inv: "boardInv b \<Longrightarrow> toggleQuestion b r c = Inr b' \<Longrightarrow> boardInv b'"
  unfolding boardInv_def toggleQuestion_def
  by (auto simp: Let_def split: sum.splits if_splits
      intro!: setCell_list_all dest: cellAt_list_all simp: cellInv_def)

lemma placeMines_inv:
  assumes "boardInv b" "placeMines shuffle b m p = Inr b'"
  shows "boardInv b'"
proof -
  have step: "boardInv s'"
    if "boardInv s" "(case cellAt s (fst pos) (snd pos) of Inl e \<Rightarrow> Inl e
          | Inr x \<Rightarrow> Inr (setCell s (fst pos) (snd pos) (x\<lparr>isMine := True\<rparr>))) = Inr s'" for pos s s'
    using that unfolding boardInv_def
    by (auto split: sum.splits intro!: setCell_list_all dest: cellAt_list_all simp: cellInv_def)
  from assms show ?thesis
    unfolding placeMines_def Let_def copyCells_id
    by (auto split: list.splits elim!: foldE_preserves [where I = boardInv, rotated 2] intro: step)
qed

lemma calculateNeighborMines_inv:
  assumes "boardInv b" "calculateNeighborMines b = Inr b'"
  shows "boardInv b'"
proof -
  have step: "boardInv s'"
    if "boardInv s" "(case cellAt s i j of Inl e \<Rightarrow> Inl e
          | Inr x \<Rightarrow> if \<not> isMine x then
               (case filterE (\<lambda>pos. case cellAt s (fst pos) (snd pos) of
                                               Inl e \<Rightarrow> Inl e | Inr y \<Rightarrow> Inr (isMine y)) ns of
                  Inl e \<Rightarrow> Inl e
                | Inr mines \<Rightarrow> Inr (setCell s i j (x\<lparr>neighborMines := int (length mines)\<rparr>)))
             else Inr s) = Inr s'" for i j ns s s'
    using that unfolding boardInv_def
    by (auto split: sum.splits if_splits intro!: setCell_list_all dest: cellAt_list_all simp: cellInv_def)
  have row: "boardInv s'"
    if "boardInv s" "foldE (\<lambda>c nc. case cellAt nc (int r) (int c) of Inl e \<Rightarrow> Inl e
          | Inr x \<Rightarrow> if \<not> isMine x then
               (case filterE (\<lambda>pos. case cellAt nc (fst pos) (snd pos) of
                                               Inl e \<Rightarrow> Inl e | Inr y \<Rightarrow> Inr (isMine y))
                        (getNeighborPositions (int r) (int c) rows cols) of
                  Inl e \<Rightarrow> Inl e
                | Inr mines \<Rightarrow> Inr (setCell nc (int r) (int c) (x\<lparr>neighborMines := int (length mines)\<rparr>)))
             else Inr nc) cs s = Inr s'" for r rows cols cs s s'
    by (rule foldE_preserves [where I = boardInv, OF _ that(1) that(2)]) (rule step)
  from assms(2) obtain r0 rest where b: "b = r0 # rest" by (cases b) (auto simp: calculateNeighborMines_def)
  note run = assms(2) [unfolded calculateNeighborMines_def Let_def copyCells_id b list.case]
  show ?thesis
    by (rule foldE_preserves [where I = boardInv, OF _ assms(1) [unfolded b] run]) (rule row)
qed

lemma initializeEmptyBoard_inv: "boardInv (initializeEmptyBoard rows cols)"
  by (auto simp: boardInv_def initializeEmptyBoard_def list_all_iff cellInv_def createEmptyCell_def)

lemma revealAllMines_weak:
  "boardInv b \<Longrightarrow> list_all (list_all cellInvWeak) (revealAllMines b er ec)"
  by (auto simp: boardInv_def revealAllMines_def list_all_iff cellInv_def cellInvWeak_def)

lemma revealAllMines_inv:
  "boardInv b \<Longrightarrow> list_all (list_all (\<lambda>x. isMine x \<longrightarrow> \<not> isFlagged x \<and> \<not> isQuestioned x)) b
     \<Longrightarrow> boardInv (revealAllMines b er ec)"
  by (auto simp: boardInv_def revealAllMines_def list_all_iff cellInv_def)

lemma rect_index_inBoard:
  assumes "rect b" "i < length b" "j < length (b ! i)"
  shows "inBoard b (int i, int j)" "cellOf b (int i, int j) = b ! i ! j"
  using assms rect_row_length [OF assms(1,2)]
  by (simp_all add: inBoard_def isValidPosition_def cellOf_def)

lemma floodSpec_cell:
  assumes "rect b" "floodSpec b p b'" "i < length b" "j < length (b ! i)"
  shows "cellLe (b ! i ! j) (b' ! i ! j)"
    and "isRevealed (b' ! i ! j) \<Longrightarrow> \<not> isRevealed (b ! i ! j) \<Longrightarrow> \<not> isFlagged (b ! i ! j)"
proof -
  from assms(2) have ro: "revealsOnly b b'" by (simp add: floodSpec_def)
  show "cellLe (b ! i ! j) (b' ! i ! j)" using ro assms(3,4) by (rule revealsOnly_nth)
  note q = rect_index_inBoard [OF assms(1,3,4)]
  have l: "length b' = length b" "length (b' ! i) = length (b ! i)"
    using revealsOnly_length [OF ro] revealsOnly_row_length [OF ro assms(3)] by simp_all
  have q': "cellOf b' (int i, int j) = b' ! i ! j" by (simp add: cellOf_def)
  assume "isRevealed (b' ! i ! j)" "\<not> isRevealed (b ! i ! j)"
  with assms(2) q q' have "floodReach b p (int i, int j)"
    unfolding floodSpec_def by metis
  then have "hiddenUnflagged b (int i, int j)" by (rule floodReach_target)
  with q(2) show "\<not> isFlagged (b ! i ! j)" by (simp add: hiddenUnflagged_def)
qed

lemma revealCell_inv:
  assumes "rect b" "boardInv b" "revealCell d b r c = Some (Inr b')"
  shows "list_all (list_all (\<lambda>x. cellInvWeak x \<and> (isRevealed x \<longrightarrow> \<not> isFlagged x))) b'"
    and "list_all (list_all (\<lambda>x. \<not> isQuestioned x)) b \<Longrightarrow> boardInv b'"
proof -
  from revealCell_result [OF assms(1,3)] have spec: "floodSpec b (r, c) b'" by simp
  then have ro: "revealsOnly b b'" by (simp add: floodSpec_def)
  have cell: "cellInvWeak (b' ! i ! j) \<and> (isRevealed (b' ! i ! j) \<longrightarrow> \<not> isFlagged (b' ! i ! j))
              \<and> (\<not> isQuestioned (b ! i ! j) \<longrightarrow> cellInv (b' ! i ! j))"
    if "i < length b" "j < length (b ! i)" for i j
  proof -
    from assms(2) that have inv: "cellInv (b ! i ! j)" by (simp add: boardInv_def list_all_length)
    from floodSpec_cell [OF assms(1) spec that] inv show ?thesis
      by (auto simp: cellLe_def cellInv_def cellInvWeak_def)
  qed
  have l: "length b' = length b" "\<And>i. i < length b \<Longrightarrow> length (b' ! i) = length (b ! i)"
    using revealsOnly_length [OF ro] revealsOnly_row_length [OF ro] by simp_all
  show "list_all (list_all (\<lambda>x. cellInvWeak x \<and> (isRevealed x \<longrightarrow> \<not> isFlagged x))) b'"
    using cell l by (simp add: list_all_length)
  assume "list_all (list_all (\<lambda>x. \<not> isQuestioned x)) b"
  then have "\<not> isQuestioned (b ! i ! j)" if "i < length b" "j < length (b ! i)" for i j
    using that by (simp add: list_all_length)
  with cell l show "boardInv b'" by (simp add: boardInv_def list_all_length)
qed

subsection \<open>Cell ids are distinct\<close>

lemma digitChar_code: "d < 10 \<Longrightarrow> (of_char (digitChar d) :: nat) = 48 + d"
  by (simp add: digitChar_def)

lemma digitChar_inj: "d < 10 \<Longrightarrow> e < 10 \<Longrightarrow> digitChar d = digitChar e \<Longrightarrow> d = e"
proof -
  assume a: "d < 10" "e < 10" "digitChar d = digitChar e"
  have "48 + d = (of_char (digitChar d) :: nat)" using a(1) by (simp only: digitChar_code)
  also have "\<dots> = of_char (digitChar e)" by (simp only: a(3))
  also have "\<dots> = 48 + e" using a(2) by (simp only: digitChar_code)
  finally show "d = e" by simp
qed

lemma digitChar_not_minus: "d < 10 \<Longrightarrow> digitChar d \<noteq> CHR ''-''"
proof
  assume a: "d < 10" "digitChar d = CHR ''-''"
  have "(of_char (CHR ''-'') :: nat) = of_char (digitChar d)" by (simp only: a(2))
  also have "\<dots> = 48 + d" using a(1) by (simp only: digitChar_code)
  finally show False by simp
qed

declare showNat.simps [simp del]

lemma showNat_small: "n < 10 \<Longrightarrow> showNat n = [digitChar n]"
  by (subst showNat.simps) simp

lemma showNat_large: "\<not> n < 10 \<Longrightarrow> showNat n = showNat (n div 10) @ [digitChar (n mod 10)]"
  by (subst showNat.simps) simp

lemma showNat_nonempty: "showNat n \<noteq> []"
  by (cases "n < 10") (simp_all add: showNat_small showNat_large)

lemma showNat_no_minus: "CHR ''-'' \<notin> set (showNat n)"
proof (induction n rule: showNat.induct)
  case (1 n)
  show ?case
  proof (cases "n < 10")
    case True
    then show ?thesis using digitChar_not_minus [of n] by (auto simp: showNat_small)
  next
    case False
    with 1 digitChar_not_minus [of "n mod 10"] show ?thesis by (auto simp: showNat_large)
  qed
qed

lemma showNat_inj: "showNat n = showNat m \<Longrightarrow> n = m"
proof (induction n arbitrary: m rule: showNat.induct)
  case (1 n)
  show ?case
  proof (cases "n < 10")
    case True
    show ?thesis
    proof (cases "m < 10")
      case m: True
      with True 1(2) show ?thesis by (auto simp: showNat_small dest: digitChar_inj)
    next
      case False
      with True 1(2) showNat_nonempty [of "m div 10"] show ?thesis
        by (simp add: showNat_small showNat_large)
    qed
  next
    case False
    show ?thesis
    proof (cases "m < 10")
      case True
      with False 1(2) showNat_nonempty [of "n div 10"] show ?thesis
        by (simp add: showNat_small showNat_large)
    next
      case m: False
      with False 1(2) have eq: "showNat (n div 10) = showNat (m div 10)"
        and d: "digitChar (n mod 10) = digitChar (m mod 10)"
        by (simp_all add: showNat_large)
      from 1(1) [OF False eq] have "n div 10 = m div 10" .
      moreover from d have "n mod 10 = m mod 10" by (rule digitChar_inj [rotated 2]) simp_all
      ultimately show ?thesis by (metis div_mult_mod_eq)
    qed
  qed
qed

lemma split_at_separator:
  "sep \<notin> set a \<Longrightarrow> sep \<notin> set b \<Longrightarrow> a @ sep # x = b @ sep # y \<Longrightarrow> a = b \<and> x = y"
proof (induction a arbitrary: b)
  case Nil
  then show ?case by (cases b) auto
next
  case (Cons h a)
  then show ?case by (cases b) auto
qed

lemma showInt_no_minus_tail:
  "\<exists>s. showInt i = (if i < 0 then CHR ''-'' # s else s) \<and> s \<noteq> [] \<and> CHR ''-'' \<notin> set s
       \<and> s = showNat (nat \<bar>i\<bar>)"
  by (auto simp: showInt_def showNat_nonempty showNat_no_minus)

lemma showInt_sep_inj:
  assumes "showInt i @ CHR ''-'' # x = showInt j @ CHR ''-'' # y"
  shows "i = j \<and> x = y"
proof -
  obtain s where s: "showInt i = (if i < 0 then CHR ''-'' # s else s)" "s \<noteq> []"
    "CHR ''-'' \<notin> set s" "s = showNat (nat \<bar>i\<bar>)"
    using showInt_no_minus_tail [of i] by blast
  obtain t where t: "showInt j = (if j < 0 then CHR ''-'' # t else t)" "t \<noteq> []"
    "CHR ''-'' \<notin> set t" "t = showNat (nat \<bar>j\<bar>)"
    using showInt_no_minus_tail [of j] by blast
  have sign: "i < 0 \<longleftrightarrow> j < 0"
  proof (rule ccontr)
    assume "\<not> ?thesis"
    then consider "i < 0" "\<not> j < 0" | "\<not> i < 0" "j < 0" by blast
    then show False
    proof cases
      case 1
      with assms s(1) t(1) have "CHR ''-'' # s @ CHR ''-'' # x = t @ CHR ''-'' # y" by simp
      with t(2,3) show False by (cases t) auto
    next
      case 2
      with assms s(1) t(1) have "s @ CHR ''-'' # x = CHR ''-'' # t @ CHR ''-'' # y" by simp
      with s(2,3) show False by (cases s) auto
    qed
  qed
  from assms s(1) t(1) sign have "s @ CHR ''-'' # x = t @ CHR ''-'' # y"
    by (auto split: if_splits)
  from split_at_separator [OF s(3) t(3) this] have "s = t" "x = y" by simp_all
  with s(4) t(4) have "nat \<bar>i\<bar> = nat \<bar>j\<bar>" by (auto dest: showNat_inj)
  with sign \<open>x = y\<close> show ?thesis by auto
qed

lemma showInt_inj: "showInt i = showInt j \<Longrightarrow> i = j"
  using showInt_sep_inj [of i "[]" j "[]"] by simp

lemma generateCellId_inj:
  "generateCellId r c = generateCellId r' c' \<longleftrightarrow> r = r' \<and> c = c'"
proof
  assume "generateCellId r c = generateCellId r' c'"
  then have "showInt r @ CHR ''-'' # showInt c = showInt r' @ CHR ''-'' # showInt c'"
    by (simp add: generateCellId_def)
  from showInt_sep_inj [OF this] show "r = r' \<and> c = c'" by (auto dest: showInt_inj)
qed simp

subsection \<open>Placing the mines\<close>

lemma concat_if_filter:
  "concat (map (\<lambda>x. if P (f x) then [f x] else []) xs) = filter P (map f xs)"
  by (induction xs) auto

lemma available_as_filter:
  "concat (map (\<lambda>r. concat (map (\<lambda>c. if P (int r, int c) then [(int r, int c)] else []) cs)) rs)
     = filter P (concat (map (\<lambda>r. map (\<lambda>c. (int r, int c)) cs) rs))"
proof (induction rs)
  case Nil
  then show ?case by simp
next
  case (Cons a rs)
  have "concat (map (\<lambda>c. if P (int a, int c) then [(int a, int c)] else []) cs)
          = filter P (map (\<lambda>c. (int a, int c)) cs)"
    by (rule concat_if_filter)
  with Cons show ?case by simp
qed

lemma allPositions_product:
  "allPositions b = map (\<lambda>(r, c). (int r, int c)) (List.product [0..<length b] [0..<length (hd b)])"
  by (simp add: allPositions_def product_concat_map map_concat comp_def)

lemma distinct_allPositions: "distinct (allPositions b)"
  unfolding allPositions_product
  by (rule distinct_map [THEN iffD2]) (auto simp: distinct_product inj_on_def)

lemma allPositions_inBoard: "q \<in> set (allPositions b) \<Longrightarrow> inBoard b q"
  by (auto simp: allPositions_def inBoard_def isValidPosition_def)

lemma near_iff:
  assumes "inBoard b q"
  shows "q = p \<or> q \<in> set (neighborsOf b p) \<longleftrightarrow> \<bar>fst q - fst p\<bar> \<le> 1 \<and> \<bar>snd q - snd p\<bar> \<le> 1"
proof -
  obtain qr qc pr pc where q: "q = (qr, qc)" and p: "p = (pr, pc)" by (cases q, cases p) blast
  have "(qr, qc) \<in> set (map (\<lambda>(dr, dc). (pr + dr, pc + dc)) DIRECTIONS)
        \<longleftrightarrow> \<bar>qr - pr\<bar> \<le> 1 \<and> \<bar>qc - pc\<bar> \<le> 1 \<and> (qr, qc) \<noteq> (pr, pc)"
    unfolding DIRECTIONS_def by (simp add: abs_le_iff) presburger
  with assms show ?thesis
    unfolding q p neighborsOf_def getNeighborPositions_def inBoard_def by auto
qed

lemma filter_update_more:
  "i < length xs \<Longrightarrow> \<not> P (xs ! i) \<Longrightarrow> P v \<Longrightarrow>
     length (filter P (xs[i := v])) = Suc (length (filter P xs))"
proof (induction xs arbitrary: i)
  case Nil
  then show ?case by simp
next
  case (Cons a xs)
  then show ?case by (cases i) auto
qed

lemma concat_update_more:
  "r < length b \<Longrightarrow> length (filter P row') = Suc (length (filter P (b ! r))) \<Longrightarrow>
     length (filter P (concat (b[r := row']))) = Suc (length (filter P (concat b)))"
proof (induction b arbitrary: r)
  case Nil
  then show ?case by simp
next
  case (Cons a b)
  then show ?case by (cases r) auto
qed

lemma rectI:
  assumes "b \<noteq> []" "\<And>i. i < length b \<Longrightarrow> length (b ! i) = n"
  shows "rect b" "length (hd b) = n"
proof -
  from assms show n: "length (hd b) = n" by (simp add: hd_conv_nth)
  show "rect b" unfolding rect_def list_all_length n using assms by blast
qed

lemma setCell_shape:
  assumes "rect b" "inBoard b (r, c)"
  shows "rect (setCell b r c v)" "length (setCell b r c v) = length b"
    "length (hd (setCell b r c v)) = length (hd b)"
    "\<And>q. inBoard b q \<Longrightarrow> cellOf (setCell b r c v) q = (if q = (r, c) then v else cellOf b q)"
proof -
  from inBoard_nat [OF assms]
  have r: "nat r < length b" "0 \<le> r" and c: "nat c < length (b ! nat r)" "0 \<le> c" by simp_all
  let ?b1 = "b[nat r := (b ! nat r)[nat c := v]]"
  have b1: "setCell b r c v = ?b1" by (simp add: setCell_def)
  have ne: "?b1 \<noteq> []" using assms(1) by (simp add: rect_def)
  have rows: "length (?b1 ! i) = length (hd b)" if "i < length ?b1" for i
    using that rect_row_length [OF assms(1), of i] rect_row_length [OF assms(1) r(1)]
    by (cases "i = nat r") simp_all
  from rectI [OF ne rows] show "rect (setCell b r c v)" "length (hd (setCell b r c v)) = length (hd b)"
    unfolding b1 by simp_all
  show "length (setCell b r c v) = length b" by (simp add: b1)
  show "cellOf (setCell b r c v) q = (if q = (r, c) then v else cellOf b q)" if "inBoard b q" for q
  proof -
    from inBoard_nat [OF assms(1) that]
    have q: "nat (fst q) < length b" "0 \<le> fst q" "nat (snd q) < length (b ! nat (fst q))" "0 \<le> snd q"
      by simp_all
    have eq: "q = (r, c) \<longleftrightarrow> nat (fst q) = nat r \<and> nat (snd q) = nat c"
      using q r c by (cases q) auto
    show ?thesis
      unfolding b1 cellOf_def using q r c eq by (auto simp: nth_list_update)
  qed
qed

lemma setMine_count:
  assumes "rect b" "inBoard b (r, c)" "\<not> isMine (cellOf b (r, c))"
  shows "length (filter isMine (concat (setCell b r c ((cellOf b (r, c))\<lparr>isMine := True\<rparr>))))
           = Suc (length (filter isMine (concat b)))"
proof -
  from inBoard_nat [OF assms(1,2)]
  have r: "nat r < length b" and c: "nat c < length (b ! nat r)" by simp_all
  have "length (filter isMine ((b ! nat r)[nat c := (cellOf b (r, c))\<lparr>isMine := True\<rparr>]))
          = Suc (length (filter isMine (b ! nat r)))"
    using c assms(3) by (intro filter_update_more) (simp_all add: cellOf_def)
  then show ?thesis unfolding setCell_def using r by (intro concat_update_more)
qed

lemma placeMines_loop:
  "rect b \<Longrightarrow> distinct ps \<Longrightarrow> \<forall>q \<in> set ps. inBoard b q \<and> \<not> isMine (cellOf b q) \<Longrightarrow>
     \<exists>b'. foldE (\<lambda>pos nc. case cellAt nc (fst pos) (snd pos) of
                    Inl e \<Rightarrow> Inl e
                  | Inr x \<Rightarrow> Inr (setCell nc (fst pos) (snd pos) (x\<lparr>isMine := True\<rparr>))) ps b = Inr b'
       \<and> (\<forall>q. inBoard b q \<longrightarrow> (isMine (cellOf b' q) \<longleftrightarrow> isMine (cellOf b q) \<or> q \<in> set ps))
       \<and> length (filter isMine (concat b')) = length (filter isMine (concat b)) + length ps"
proof (induction ps arbitrary: b)
  case Nil
  then show ?case by simp
next
  case (Cons p ps)
  obtain r c where p: "p = (r, c)" by (cases p)
  from Cons.prems have inb: "inBoard b (r, c)" and nm: "\<not> isMine (cellOf b (r, c))" by (simp_all add: p)
  let ?b1 = "setCell b r c ((cellOf b (r, c))\<lparr>isMine := True\<rparr>)"
  note sh = setCell_shape [OF Cons.prems(1) inb, where v = "(cellOf b (r, c))\<lparr>isMine := True\<rparr>"]
  have inb_eq: "inBoard ?b1 q = inBoard b q" for q by (simp add: inBoard_def sh(2,3))
  have rest: "\<forall>q \<in> set ps. inBoard ?b1 q \<and> \<not> isMine (cellOf ?b1 q)"
  proof
    fix q assume q: "q \<in> set ps"
    with Cons.prems(2) have "q \<noteq> (r, c)" by (auto simp: p)
    with Cons.prems(3) q sh(4) [of q] show "inBoard ?b1 q \<and> \<not> isMine (cellOf ?b1 q)"
      by (simp add: inb_eq)
  qed
  from Cons.prems(2) have dps: "distinct ps" by simp
  from Cons.IH [OF sh(1) dps rest]
  obtain b' where run: "foldE (\<lambda>pos nc. case cellAt nc (fst pos) (snd pos) of
                    Inl e \<Rightarrow> Inl e
                  | Inr x \<Rightarrow> Inr (setCell nc (fst pos) (snd pos) (x\<lparr>isMine := True\<rparr>))) ps ?b1 = Inr b'"
    and mines: "\<And>q. inBoard ?b1 q \<Longrightarrow> (isMine (cellOf b' q) \<longleftrightarrow> isMine (cellOf ?b1 q) \<or> q \<in> set ps)"
    and cnt: "length (filter isMine (concat b')) = length (filter isMine (concat ?b1)) + length ps"
    by blast
  have "foldE (\<lambda>pos nc. case cellAt nc (fst pos) (snd pos) of
                    Inl e \<Rightarrow> Inl e
                  | Inr x \<Rightarrow> Inr (setCell nc (fst pos) (snd pos) (x\<lparr>isMine := True\<rparr>))) (p # ps) b = Inr b'"
    using run cellAt_cellOf [OF Cons.prems(1) inb] by (simp add: p)
  moreover have "isMine (cellOf b' q) \<longleftrightarrow> isMine (cellOf b q) \<or> q \<in> set (p # ps)" if "inBoard b q" for q
    using mines [of q] sh(4) [OF that] that by (auto simp: inb_eq p)
  moreover have "length (filter isMine (concat b')) = length (filter isMine (concat b)) + length (p # ps)"
    using cnt setMine_count [OF Cons.prems(1) inb nm] by simp
  ultimately show ?case by blast
qed

lemma availablePositions_eq:
  "concat (map (\<lambda>r. concat (map (\<lambda>c.
       if generateCellId (int r) (int c) \<notin> ex then [(int r, int c)] else []) [0..<length (hd b)]))
     [0..<length b])
   = filter (\<lambda>q. generateCellId (fst q) (snd q) \<notin> ex) (allPositions b)"
  using available_as_filter [where P = "\<lambda>q. generateCellId (fst q) (snd q) \<notin> ex"
      and cs = "[0..<length (hd b)]" and rs = "[0..<length b]"]
  by (simp add: allPositions_def)

lemma excluded_iff:
  "generateCellId (fst q) (snd q)
     \<in> insert (generateCellId (fst p) (snd p)) (set (map (\<lambda>pos. generateCellId (fst pos) (snd pos)) ns))
   \<longleftrightarrow> q = p \<or> q \<in> set ns"
  by (auto simp: generateCellId_inj prod_eq_iff image_iff)

lemma no_mines_cellOf:
  assumes "rect b" "list_all (list_all (\<lambda>x. \<not> isMine x)) b" "inBoard b q"
  shows "\<not> isMine (cellOf b q)"
  using assms(2) inBoard_nat(1,2) [OF assms(1,3)] by (simp add: list_all_length cellOf_def)

lemma no_mines_count:
  "list_all (list_all (\<lambda>x. \<not> isMine x)) b \<Longrightarrow> length (filter isMine (concat b)) = 0"
  by (auto simp: list_all_iff filter_empty_conv)

section \<open>The claims\<close>

text \<open>
  Claim C1, as the code has it. On a rectangular board, a call of \<open>revealCell\<close> with
  enough depth returns a board in which a cell is revealed exactly when it was revealed
  before or is reached from the clicked cell by \<open>floodReach\<close>: through a chain of
  adjacent cells that were hidden and unflagged, all but the last with
  \<open>neighborMines = 0\<close> and no mine. The flood does not go on from a cell with
  \<open>neighborMines > 0\<close>, but that cell is revealed; it neither opens nor passes a flagged
  or an already revealed cell. Where no cell of the board is revealed or flagged and the
  counts are correct, this is the whole zero region of the clicked cell and every
  neighbour of it.
\<close>

theorem revealCell_flood_fill:
  assumes "rect cells" and "hiddenCount cells < d"
  shows "\<exists>cells'. revealCell d cells r c = Some (Inr cells')
           \<and> (\<forall>q. inBoard cells q \<longrightarrow>
                 (isRevealed (cellOf cells' q) \<longleftrightarrow>
                    isRevealed (cellOf cells q) \<or> floodReach cells (r, c) q))
           \<and> ((\<forall>q. inBoard cells q \<longrightarrow> \<not> isRevealed (cellOf cells q) \<and> \<not> isFlagged (cellOf cells q))
                \<and> countsCorrect cells \<and> \<not> isMine (cellOf cells (r, c))
               \<longrightarrow> (\<forall>q. zeroRegion cells (r, c) q \<longrightarrow>
                      isRevealed (cellOf cells' q)
                      \<and> (\<forall>q' \<in> set (neighborsOf cells q). isRevealed (cellOf cells' q'))))"
proof -
  from revealCell_flood [OF assms, of r c]
  obtain cells' where res: "revealCell d cells r c = Some (Inr cells')"
    and spec: "floodSpec cells (r, c) cells'" by blast
  from spec have rev: "\<And>q. inBoard cells q \<Longrightarrow>
      (isRevealed (cellOf cells' q) \<longleftrightarrow> isRevealed (cellOf cells q) \<or> floodReach cells (r, c) q)"
    unfolding floodSpec_def by blast
  have "isRevealed (cellOf cells' q) \<and> (\<forall>q' \<in> set (neighborsOf cells q). isRevealed (cellOf cells' q'))"
    if fresh: "\<forall>q. inBoard cells q \<longrightarrow> \<not> isRevealed (cellOf cells q) \<and> \<not> isFlagged (cellOf cells q)"
      and cc: "countsCorrect cells" and nm: "\<not> isMine (cellOf cells (r, c))"
      and zr: "zeroRegion cells (r, c) q" for q
  proof -
    from zeroRegion_floodReach [OF _ cc nm zr] fresh
    have fr: "floodReach cells (r, c) q" and ex: "expands cells q" by blast+
    from fr have "inBoard cells q" by (auto dest: floodReach_target simp: hiddenUnflagged_def)
    with rev fr have "isRevealed (cellOf cells' q)" by blast
    moreover have "isRevealed (cellOf cells' q')" if "q' \<in> set (neighborsOf cells q)" for q'
    proof -
      from that have inb': "inBoard cells q'" by (rule neighborsOf_inBoard)
      with fresh have "hiddenUnflagged cells q'" unfolding hiddenUnflagged_def by blast
      with fr ex that have "floodReach cells (r, c) q'" by (rule floodReach.step)
      with rev inb' show ?thesis by blast
    qed
    ultimately show ?thesis by blast
  qed
  with res rev show ?thesis by blast
qed

theorem revealCell_flood_fill_witness:
  "rect exOpen \<and> hiddenCount exOpen < 4 \<and> inBoard exOpen (0, 2) \<and> floodReach exOpen (0, 0) (0, 2)
   \<and> (\<exists>cells'. revealCell 4 exOpen 0 0 = Some (Inr cells') \<and> isRevealed (cellOf cells' (0, 2)))"
proof -
  have h: "rect exOpen" "hiddenCount exOpen < 4" by (simp_all add: exOpen_rect exOpen_hidden)
  have inb: "inBoard exOpen (0, 2)" by (simp add: inBoard_def ex_defs run_defs)
  from revealCell_flood_fill [OF h, of 0 0]
  obtain cells' where res: "revealCell 4 exOpen 0 0 = Some (Inr cells')"
    and rev: "\<forall>q. inBoard exOpen q \<longrightarrow>
                 (isRevealed (cellOf cells' q) \<longleftrightarrow>
                    isRevealed (cellOf exOpen q) \<or> floodReach exOpen (0, 0) q)"
    by blast
  from rev inb exOpen_reach have "isRevealed (cellOf cells' (0, 2))" by blast
  with res h inb exOpen_reach show ?thesis by blast
qed

text \<open>
  The claim as the specification words it fails where a cell of the zero region is
  flagged: in \<open>exRow\<close> the flagged cell \<open>(0, 1)\<close> and the cell \<open>(0, 2)\<close> behind it
  belong to the zero region of \<open>(0, 0)\<close> and stay hidden.
\<close>

theorem revealCell_flood_fill_counterexample:
  "rect exRow \<and> countsCorrect exRow \<and> hiddenUnflagged exRow (0, 0) \<and> expands exRow (0, 0)
   \<and> zeroRegion exRow (0, 0) (0, 1) \<and> zeroRegion exRow (0, 0) (0, 2)
   \<and> revealCell 4 exRow 0 0 = Some (Inr exRow')
   \<and> \<not> isRevealed (cellOf exRow' (0, 1)) \<and> \<not> isRevealed (cellOf exRow' (0, 2))"
proof -
  have nb: "neighborsOf exRow (0, 0) = [(0, 1)]" "neighborsOf exRow (0, 1) = [(0, 0), (0, 2)]"
    "neighborsOf exRow (0, 2) = [(0, 1)]"
    by (simp_all add: neighborsOf_def ex_defs run_defs)
  have z0: "zeroRegion exRow (0, 0) (0, 0)"
    by (rule zeroRegion.zstart) (simp_all add: inBoard_def cellOf_def ex_defs run_defs)
  have zero: "neighborMines (cellOf exRow (0, 1)) = 0" "neighborMines (cellOf exRow (0, 2)) = 0"
    by (simp_all add: cellOf_def ex_defs)
  have m1: "(0, 1) \<in> set (neighborsOf exRow (0, 0))" and m2: "(0, 2) \<in> set (neighborsOf exRow (0, 1))"
    by (simp_all add: nb)
  from z0 m1 zero(1) have z1: "zeroRegion exRow (0, 0) (0, 1)" by (rule zeroRegion.zstep)
  from z1 m2 zero(2) have z2: "zeroRegion exRow (0, 0) (0, 2)" by (rule zeroRegion.zstep)
  have ap: "allPositions exRow = [(0, 0), (0, 1), (0, 2)]"
    by (simp add: allPositions_def exRow_def)
  have "countsCorrect exRow"
    unfolding countsCorrect_def ap by (simp add: nb) (simp add: cellOf_def ex_defs)
  moreover have "revealCell 4 exRow 0 0 = Some (Inr exRow')"
    by (simp add: ex_defs run_defs)
  moreover have "rect exRow" "hiddenUnflagged exRow (0, 0)" "expands exRow (0, 0)"
    "\<not> isRevealed (cellOf exRow' (0, 1))" "\<not> isRevealed (cellOf exRow' (0, 2))"
    by (simp_all add: rect_def hiddenUnflagged_def expands_def inBoard_def cellOf_def ex_defs run_defs)
  ultimately show ?thesis using z1 z2 by blast
qed

text \<open>
  Claim C2. On a rectangular board without mines, for an in-bounds first click \<open>p\<close>,
  a number \<open>m \<ge> 0\<close> of mines and a shuffle that permutes its input, \<open>placeMines\<close>
  returns a board in which \<open>p\<close> and its neighbours are no mines and exactly
  \<open>min m (eligibleCount cells p)\<close> cells are mines.
\<close>

theorem placeMines_spec:
  assumes "rect cells"
    and "list_all (list_all (\<lambda>x. \<not> isMine x)) cells"
    and "inBoard cells p"
    and "0 \<le> m"
    and "\<forall>xs. mset (shuffle xs) = mset xs"
  shows "\<exists>cells'. placeMines shuffle cells m p = Inr cells'
           \<and> \<not> isMine (cellOf cells' p)
           \<and> (\<forall>n \<in> set (neighborsOf cells p). \<not> isMine (cellOf cells' n))
           \<and> int (length (filter isMine (concat cells'))) = min m (int (eligibleCount cells p))"
proof -
  from assms(1) obtain r0 rest where cells: "cells = r0 # rest"
    by (cases cells) (auto simp: rect_def)
  then have hd: "r0 = hd cells" by simp
  define ex where "ex = insert (generateCellId (fst p) (snd p))
      (set (map (\<lambda>pos. generateCellId (fst pos) (snd pos)) (neighborsOf cells p)))"
  define avail where "avail = filter (\<lambda>q. generateCellId (fst q) (snd q) \<notin> ex) (allPositions cells)"
  define mines where "mines = slice0 (shuffle avail) (min m (int (length (shuffle avail))))"
  have pm: "placeMines shuffle cells m p
      = foldE (\<lambda>pos nc. case cellAt nc (fst pos) (snd pos) of
                    Inl e \<Rightarrow> Inl e
                  | Inr x \<Rightarrow> Inr (setCell nc (fst pos) (snd pos) (x\<lparr>isMine := True\<rparr>))) mines cells"
    unfolding placeMines_def Let_def copyCells_id mines_def avail_def ex_def neighborsOf_def
      availablePositions_eq [symmetric]
    by (simp add: cells)
  have far: "q \<in> set avail \<longleftrightarrow> inBoard cells q \<and> \<not> (q = p \<or> q \<in> set (neighborsOf cells p))" for q
  proof -
    have "q \<in> set avail \<longleftrightarrow>
            q \<in> set (allPositions cells) \<and> \<not> (q = p \<or> q \<in> set (neighborsOf cells p))"
      unfolding avail_def ex_def by (simp only: set_filter mem_Collect_eq excluded_iff)
    with inBoard_allPositions [of cells q] allPositions_inBoard [of q cells] show ?thesis by blast
  qed
  have "avail = filter (\<lambda>q. \<not> (\<bar>fst q - fst p\<bar> \<le> 1 \<and> \<bar>snd q - snd p\<bar> \<le> 1)) (allPositions cells)"
    unfolding avail_def ex_def
    by (rule filter_cong [OF refl]) (simp only: excluded_iff near_iff [OF allPositions_inBoard])
  then have len: "length avail = eligibleCount cells p" by (simp add: eligibleCount_def)
  have davail: "distinct avail" unfolding avail_def by (simp add: distinct_allPositions)
  from assms(5) have perm: "mset (shuffle avail) = mset avail" by blast
  then have dsh: "distinct (shuffle avail)" and ssh: "set (shuffle avail) = set avail"
    and lsh: "length (shuffle avail) = length avail"
    using davail mset_eq_imp_distinct_iff [OF perm] mset_eq_setD [OF perm] mset_eq_length [OF perm]
    by simp_all
  have mines: "mines = take (nat (min m (int (length avail)))) (shuffle avail)"
    using assms(4) by (simp add: mines_def slice0_def lsh)
  have dm: "distinct mines" unfolding mines using dsh by simp
  have sm: "set mines \<subseteq> set avail" unfolding mines using ssh set_take_subset [of _ "shuffle avail"] by blast
  have lm: "int (length mines) = min m (int (eligibleCount cells p))"
    unfolding mines using assms(4) by (simp add: lsh len)
  have ok: "\<forall>q \<in> set mines. inBoard cells q \<and> \<not> isMine (cellOf cells q)"
    using sm far no_mines_cellOf [OF assms(1,2)] by blast
  from placeMines_loop [OF assms(1) dm ok]
  obtain cells' where run: "placeMines shuffle cells m p = Inr cells'"
    and mine: "\<And>q. inBoard cells q \<Longrightarrow> (isMine (cellOf cells' q) \<longleftrightarrow> isMine (cellOf cells q) \<or> q \<in> set mines)"
    and cnt: "length (filter isMine (concat cells')) = length (filter isMine (concat cells)) + length mines"
    unfolding pm by blast
  have "\<not> isMine (cellOf cells' p)"
    using mine [OF assms(3)] no_mines_cellOf [OF assms(1,2,3)] sm far [of p] by blast
  moreover have "\<not> isMine (cellOf cells' n)" if "n \<in> set (neighborsOf cells p)" for n
    using mine [OF neighborsOf_inBoard [OF that]]
      no_mines_cellOf [OF assms(1,2) neighborsOf_inBoard [OF that]] sm far [of n] that by blast
  moreover have "int (length (filter isMine (concat cells'))) = min m (int (eligibleCount cells p))"
    using cnt lm no_mines_count [OF assms(2)] by simp
  ultimately show ?thesis using run by blast
qed

theorem placeMines_spec_witness:
  "rect exOpen \<and> list_all (list_all (\<lambda>x. \<not> isMine x)) exOpen \<and> inBoard exOpen (0, 0)
   \<and> (0::int) \<le> 5 \<and> (\<forall>xs. mset (rev xs :: position list) = mset xs)
   \<and> eligibleCount exOpen (0, 0) = 1
   \<and> (\<exists>cells'. placeMines rev exOpen 5 (0, 0) = Inr cells'
         \<and> \<not> isMine (cellOf cells' (0, 0))
         \<and> (\<forall>n \<in> set (neighborsOf exOpen (0, 0)). \<not> isMine (cellOf cells' n))
         \<and> int (length (filter isMine (concat cells'))) = 1)"
proof -
  have h2: "list_all (list_all (\<lambda>x. \<not> isMine x)) exOpen" by (simp add: ex_defs)
  have h3: "inBoard exOpen (0, 0)" by (simp add: inBoard_def isValidPosition_def exOpen_def)
  have h5: "\<forall>xs. mset (rev xs :: position list) = mset xs" by simp
  have ec: "eligibleCount exOpen (0, 0) = 1"
    by (simp add: eligibleCount_def allPositions_def exOpen_def)
  from placeMines_spec [OF exOpen_rect h2 h3 _ h5, of 5] ec exOpen_rect h2 h3 h5
  show ?thesis by simp
qed

text \<open>
  Claim C3, as the code has it. The cell invariant holds on a freshly created board and
  is kept by \<open>toggleFlag\<close>, \<open>toggleQuestion\<close>, \<open>placeMines\<close> and
  \<open>calculateNeighborMines\<close>. \<open>revealCell\<close> and \<open>revealAllMines\<close> keep the part
  "no cell is both flagged and questioned"; \<open>revealCell\<close> never yields a revealed
  flagged cell and keeps the whole invariant on a board without question marks;
  \<open>revealAllMines\<close> keeps the whole invariant when no mine is flagged or questioned.
\<close>

theorem cell_invariant_preserved:
  "boardInv (initializeEmptyBoard rows cols)
   \<and> (boardInv cells \<longrightarrow>
        (\<forall>cells'. toggleFlag cells r c = Inr cells' \<longrightarrow> boardInv cells')
      \<and> (\<forall>cells'. toggleQuestion cells r c = Inr cells' \<longrightarrow> boardInv cells')
      \<and> (\<forall>cells'. placeMines shuffle cells m p = Inr cells' \<longrightarrow> boardInv cells')
      \<and> (\<forall>cells'. calculateNeighborMines cells = Inr cells' \<longrightarrow> boardInv cells')
      \<and> (\<forall>cells'. rect cells \<and> revealCell d cells r c = Some (Inr cells') \<longrightarrow>
            list_all (list_all (\<lambda>x. cellInvWeak x \<and> (isRevealed x \<longrightarrow> \<not> isFlagged x))) cells'
            \<and> (list_all (list_all (\<lambda>x. \<not> isQuestioned x)) cells \<longrightarrow> boardInv cells'))
      \<and> list_all (list_all cellInvWeak) (revealAllMines cells er ec)
      \<and> (list_all (list_all (\<lambda>x. isMine x \<longrightarrow> \<not> isFlagged x \<and> \<not> isQuestioned x)) cells
            \<longrightarrow> boardInv (revealAllMines cells er ec)))"
proof (intro conjI impI allI)
  show "boardInv (initializeEmptyBoard rows cols)" by (rule initializeEmptyBoard_inv)
next
  fix cells' assume "boardInv cells" "toggleFlag cells r c = Inr cells'"
  then show "boardInv cells'" by (rule toggleFlag_inv)
next
  fix cells' assume "boardInv cells" "toggleQuestion cells r c = Inr cells'"
  then show "boardInv cells'" by (rule toggleQuestion_inv)
next
  fix cells' assume "boardInv cells" "placeMines shuffle cells m p = Inr cells'"
  then show "boardInv cells'" by (rule placeMines_inv)
next
  fix cells' assume "boardInv cells" "calculateNeighborMines cells = Inr cells'"
  then show "boardInv cells'" by (rule calculateNeighborMines_inv)
next
  fix cells' assume inv: "boardInv cells" and "rect cells \<and> revealCell d cells r c = Some (Inr cells')"
  then have run: "rect cells" "revealCell d cells r c = Some (Inr cells')" by simp_all
  show "list_all (list_all (\<lambda>x. cellInvWeak x \<and> (isRevealed x \<longrightarrow> \<not> isFlagged x))) cells'"
    using run(1) inv run(2) by (rule revealCell_inv(1))
  assume "list_all (list_all (\<lambda>x. \<not> isQuestioned x)) cells"
  with run(1) inv run(2) show "boardInv cells'" by (rule revealCell_inv(2))
next
  assume "boardInv cells"
  then show "list_all (list_all cellInvWeak) (revealAllMines cells er ec)" by (rule revealAllMines_weak)
next
  assume "boardInv cells"
    "list_all (list_all (\<lambda>x. isMine x \<longrightarrow> \<not> isFlagged x \<and> \<not> isQuestioned x)) cells"
  then show "boardInv (revealAllMines cells er ec)" by (rule revealAllMines_inv)
qed

theorem cell_invariant_preserved_witness:
  "boardInv exOpen
   \<and> toggleFlag exOpen 0 1 = Inr exRow \<and> boardInv exRow
   \<and> rect exOpen \<and> list_all (list_all (\<lambda>x. \<not> isQuestioned x)) exOpen
   \<and> revealCell 4 exOpen 0 0 = Some (Inr (map (map (\<lambda>x. x\<lparr>isRevealed := True\<rparr>)) exOpen))
   \<and> boardInv (map (map (\<lambda>x. x\<lparr>isRevealed := True\<rparr>)) exOpen)
   \<and> list_all (list_all (\<lambda>x. isMine x \<longrightarrow> \<not> isFlagged x \<and> \<not> isQuestioned x)) exOpen
   \<and> boardInv (revealAllMines exOpen 0 0)"
proof -
  have inv: "boardInv exOpen" by (simp add: boardInv_def cellInv_def ex_defs)
  have tf: "toggleFlag exOpen 0 1 = Inr exRow"
    by (simp add: toggleFlag_def cellAt_def setCell_def Let_def ex_defs)
  have nq: "list_all (list_all (\<lambda>x. \<not> isQuestioned x)) exOpen"
    and nm: "list_all (list_all (\<lambda>x. isMine x \<longrightarrow> \<not> isFlagged x \<and> \<not> isQuestioned x)) exOpen"
    by (simp_all add: ex_defs)
  have run: "revealCell 4 exOpen 0 0 = Some (Inr (map (map (\<lambda>x. x\<lparr>isRevealed := True\<rparr>)) exOpen))"
    by (simp add: ex_defs run_defs)
  note at01 = cell_invariant_preserved [of 1 3 exOpen 0 1 id 0 "(0, 0)" 4 0 0]
  from at01 inv tf have "boardInv exRow" by blast
  moreover from cell_invariant_preserved [of 1 3 exOpen 0 0 id 0 "(0, 0)" 4 0 0] inv exOpen_rect run nq
  have "boardInv (map (map (\<lambda>x. x\<lparr>isRevealed := True\<rparr>)) exOpen)" by blast
  moreover from at01 inv nm have "boardInv (revealAllMines exOpen 0 0)" by blast
  ultimately show ?thesis using inv tf exOpen_rect nq run nm by blast
qed

text \<open>
  The invariant itself is not kept by the two reveals: \<open>revealCell\<close> opens a questioned
  cell and leaves its question mark, and \<open>revealAllMines\<close> opens a flagged mine and
  leaves its flag.
\<close>

theorem cell_invariant_preserved_counterexample:
  "rect exQuestioned \<and> boardInv exQuestioned
   \<and> revealCell 3 exQuestioned 0 0
       = Some (Inr (map (map (\<lambda>x. x\<lparr>isRevealed := True\<rparr>)) exQuestioned))
   \<and> \<not> boardInv (map (map (\<lambda>x. x\<lparr>isRevealed := True\<rparr>)) exQuestioned)
   \<and> boardInv exFlaggedMine
   \<and> cellAt exFlaggedMine 0 1 = Inr ((createEmptyCell 0 1)\<lparr>isMine := True, isFlagged := True\<rparr>)
   \<and> \<not> boardInv (revealAllMines exFlaggedMine 0 1)"
proof -
  have "revealCell 3 exQuestioned 0 0
       = Some (Inr (map (map (\<lambda>x. x\<lparr>isRevealed := True\<rparr>)) exQuestioned))"
    by (simp add: ex_defs run_defs)
  moreover have "rect exQuestioned" "boardInv exQuestioned"
    "\<not> boardInv (map (map (\<lambda>x. x\<lparr>isRevealed := True\<rparr>)) exQuestioned)"
    "boardInv exFlaggedMine" "\<not> boardInv (revealAllMines exFlaggedMine 0 1)"
    "cellAt exFlaggedMine 0 1 = Inr ((createEmptyCell 0 1)\<lparr>isMine := True, isFlagged := True\<rparr>)"
    by (simp_all add: rect_def boardInv_def cellInv_def revealAllMines_def cellAt_def exFlaggedMine_def ex_defs)
  ultimately show ?thesis by blast
qed

text \<open>
  Claim C4. On a rectangular board and for a position outside it, \<open>revealCell\<close>
  returns the board as it is, and \<open>toggleFlag\<close> and \<open>toggleQuestion\<close> raise
  \<open>TypeError\<close> before anything is written: no call yields a changed board.
\<close>

theorem out_of_bounds_safe:
  assumes "rect cells"
    and "\<not> isValidPosition r c (int (length cells)) (int (length (hd cells)))"
  shows "revealCell (Suc d) cells r c = Some (Inr cells)
       \<and> toggleFlag cells r c = Inl TypeError
       \<and> toggleQuestion cells r c = Inl TypeError"
proof -
  from assms have "cells \<noteq> []" by (simp add: rect_def)
  with assms(2) have "revealCell (Suc d) cells r c = Some (Inr cells)"
    by (cases cells) (auto simp: Let_def)
  moreover from rect_invalid_cellAt [OF assms]
  have "toggleFlag cells r c = Inl TypeError" "toggleQuestion cells r c = Inl TypeError"
    by (simp_all add: toggleFlag_def toggleQuestion_def)
  ultimately show ?thesis by simp
qed

theorem out_of_bounds_safe_witness:
  "rect exOpen \<and> \<not> isValidPosition (-1) 0 (int (length exOpen)) (int (length (hd exOpen)))
   \<and> revealCell (Suc 0) exOpen (-1) 0 = Some (Inr exOpen)
   \<and> toggleFlag exOpen (-1) 0 = Inl TypeError
   \<and> toggleQuestion exOpen (-1) 0 = Inl TypeError"
proof -
  have oob: "\<not> isValidPosition (-1) 0 (int (length exOpen)) (int (length (hd exOpen)))"
    by (simp add: isValidPosition_def)
  from out_of_bounds_safe [OF exOpen_rect oob, of 0] exOpen_rect oob show ?thesis by simp
qed

text \<open>
  Claim C5. On a board whose cells carry their coordinates, and for the position of a
  mine, \<open>revealAllMines\<close> reveals every mine, leaves \<open>isRevealed\<close> of every other
  cell as it was, and sets \<open>isExploded\<close> to true at the given position and to false
  everywhere else.
\<close>

theorem revealAllMines_spec:
  assumes "coordsOk cells" and "cellAt cells er ec = Inr m" and "isMine m"
    and "cellAt cells r c = Inr x"
  shows "\<exists>y. cellAt (revealAllMines cells er ec) r c = Inr y
           \<and> (isMine x \<longrightarrow> isRevealed y)
           \<and> (\<not> isMine x \<longrightarrow> isRevealed y = isRevealed x)
           \<and> isExploded y = Some (r = er \<and> c = ec)"
proof -
  from assms(4) have r: "0 \<le> r" "nat r < length cells" and c: "0 \<le> c" "nat c < length (cells ! nat r)"
    and x: "x = cells ! nat r ! nat c"
    by (auto simp: cellAt_Inr_iff)
  from assms(2) have er: "0 \<le> er" "nat er < length cells" and ec: "0 \<le> ec" "nat ec < length (cells ! nat er)"
    and m: "m = cells ! nat er ! nat ec"
    by (auto simp: cellAt_Inr_iff)
  from assms(1) r c x have rc: "row x = r" "col x = c" by (auto simp: coordsOk_def)
  have "isMine x \<and> r = er \<and> c = ec \<longleftrightarrow> r = er \<and> c = ec"
    using x m assms(3) by auto
  with r c x rc show ?thesis
    by (auto simp: cellAt_def revealAllMines_def)
qed

theorem revealAllMines_spec_witness:
  "coordsOk exMine \<and> cellAt exMine 0 1 = Inr ((createEmptyCell 0 1)\<lparr>isMine := True\<rparr>)
   \<and> cellAt exMine 0 0 = Inr ((createEmptyCell 0 0)\<lparr>neighborMines := 1\<rparr>)
   \<and> (\<exists>y. cellAt (revealAllMines exMine 0 1) 0 1 = Inr y \<and> isRevealed y \<and> isExploded y = Some True)
   \<and> (\<exists>y. cellAt (revealAllMines exMine 0 1) 0 0 = Inr y \<and> \<not> isRevealed y \<and> isExploded y = Some False)"
proof -
  have ok: "coordsOk exMine"
    by (simp add: coordsOk_def ex_defs less_Suc_eq eval_nat_numeral)
  have m: "cellAt exMine 0 1 = Inr ((createEmptyCell 0 1)\<lparr>isMine := True\<rparr>)"
    and x: "cellAt exMine 0 0 = Inr ((createEmptyCell 0 0)\<lparr>neighborMines := 1\<rparr>)"
    by (simp_all add: cellAt_def exMine_def)
  have "\<exists>y. cellAt (revealAllMines exMine 0 1) 0 1 = Inr y \<and> isRevealed y \<and> isExploded y = Some True"
    using revealAllMines_spec [OF ok m _ m] by (simp add: createEmptyCell_def)
  moreover have "\<exists>y. cellAt (revealAllMines exMine 0 1) 0 0 = Inr y \<and> \<not> isRevealed y \<and> isExploded y = Some False"
    using revealAllMines_spec [OF ok m _ x] by (simp add: createEmptyCell_def)
  ultimately show ?thesis using ok m x by blast
qed

text \<open>
  Claim C6. On a board with at least one row, \<open>checkWinCondition\<close> is true exactly
  when the number of revealed cells is \<open>rows * cols - totalMines\<close>, and its value does
  not change when the flags and question marks of the cells are set in any other way.
\<close>

theorem checkWinCondition_spec:
  assumes "cells \<noteq> []"
  shows "checkWinCondition cells totalMines =
           Inr (int (getRevealedCount cells) = int (length cells) * int (length (hd cells)) - totalMines)
       \<and> checkWinCondition (map (map (\<lambda>x. x\<lparr>isFlagged := f x, isQuestioned := q x\<rparr>)) cells) totalMines
           = checkWinCondition cells totalMines"
proof -
  have "filter isRevealed (concat (map (map (\<lambda>x. x\<lparr>isFlagged := f x, isQuestioned := q x\<rparr>)) cells))
        = map (\<lambda>x. x\<lparr>isFlagged := f x, isQuestioned := q x\<rparr>) (filter isRevealed (concat cells))"
    by (simp add: map_concat [symmetric] filter_map comp_def)
  then have "length (filter isRevealed (concat (map (map (\<lambda>x. x\<lparr>isFlagged := f x, isQuestioned := q x\<rparr>)) cells)))
        = length (filter isRevealed (concat cells))" by simp
  with assms show ?thesis
    by (cases cells) (simp_all add: checkWinCondition_def getRevealedCount_def Let_def)
qed

theorem checkWinCondition_spec_witness:
  "exRow' \<noteq> [] \<and> getRevealedCount exRow' = 1
   \<and> checkWinCondition exRow' 2 = Inr True \<and> checkWinCondition exRow' 1 = Inr False
   \<and> checkWinCondition (map (map (\<lambda>x. x\<lparr>isFlagged := True, isQuestioned := False\<rparr>)) exRow') 2 = Inr True"
proof -
  have ne: "exRow' \<noteq> []" by (simp add: exRow'_def)
  have cnt: "getRevealedCount exRow' = 1" by (simp add: getRevealedCount_def ex_defs)
  have dims: "length exRow' = 1" "length (hd exRow') = 3" by (simp_all add: exRow'_def)
  from checkWinCondition_spec [OF ne, where totalMines = 2 and f = "\<lambda>x. True" and q = "\<lambda>x. False"]
    checkWinCondition_spec [OF ne, where totalMines = 1 and f = "\<lambda>x. True" and q = "\<lambda>x. False"] ne cnt
  show ?thesis by (simp add: dims)
qed

text \<open>
  Claim C7. On a board with at least one row, \<open>revealCell\<close> returns its input
  unchanged when the position is out of bounds and when the cell there is already
  revealed or flagged.
\<close>

theorem revealCell_noop:
  assumes "cells \<noteq> []"
    and "\<not> isValidPosition r c (int (length cells)) (int (length (hd cells)))
         \<or> (\<exists>x. cellAt cells r c = Inr x \<and> (isRevealed x \<or> isFlagged x))"
  shows "revealCell (Suc d) cells r c = Some (Inr cells)"
  using assms by (cases cells) (auto simp: Let_def)

theorem revealCell_noop_witness:
  "exRow' \<noteq> [] \<and> cellAt exRow' 0 0 = Inr ((createEmptyCell 0 0)\<lparr>isRevealed := True\<rparr>)
   \<and> cellAt exRow' 0 1 = Inr ((createEmptyCell 0 1)\<lparr>isFlagged := True\<rparr>)
   \<and> \<not> isValidPosition 0 3 (int (length exRow')) (int (length (hd exRow')))
   \<and> revealCell (Suc 0) exRow' 0 0 = Some (Inr exRow')
   \<and> revealCell (Suc 0) exRow' 0 1 = Some (Inr exRow')
   \<and> revealCell (Suc 0) exRow' 0 3 = Some (Inr exRow')"
proof -
  have ne: "exRow' \<noteq> []" by (simp add: exRow'_def)
  have a0: "cellAt exRow' 0 0 = Inr ((createEmptyCell 0 0)\<lparr>isRevealed := True\<rparr>)"
    and a1: "cellAt exRow' 0 1 = Inr ((createEmptyCell 0 1)\<lparr>isFlagged := True\<rparr>)"
    by (simp_all add: cellAt_def exRow'_def)
  have oob: "\<not> isValidPosition 0 3 (int (length exRow')) (int (length (hd exRow')))"
    by (simp add: isValidPosition_def exRow'_def)
  have "revealCell (Suc 0) exRow' 0 0 = Some (Inr exRow')"
    using a0 by (intro revealCell_noop [OF ne]) simp
  moreover have "revealCell (Suc 0) exRow' 0 1 = Some (Inr exRow')"
    using a1 by (intro revealCell_noop [OF ne]) simp
  moreover have "revealCell (Suc 0) exRow' 0 3 = Some (Inr exRow')"
    using oob by (intro revealCell_noop [OF ne]) simp
  ultimately show ?thesis using ne a0 a1 oob by blast
qed

text \<open>
  Claim C8. At a hidden cell: when it is neither flagged nor questioned, toggling the
  flag twice gives the board back, and so does toggling the question mark twice; after
  \<open>toggleFlag\<close> the cell is never both flagged and questioned, and when it was
  questioned (and, by the cell invariant, unflagged) \<open>toggleFlag\<close> sets the flag and
  clears the question mark.
\<close>

theorem toggle_involution:
  assumes "cellAt cells r c = Inr x" and "\<not> isRevealed x"
  shows "(\<not> isFlagged x \<and> \<not> isQuestioned x \<longrightarrow>
           (\<exists>b1. toggleFlag cells r c = Inr b1 \<and> toggleFlag b1 r c = Inr cells) \<and>
           (\<exists>b2. toggleQuestion cells r c = Inr b2 \<and> toggleQuestion b2 r c = Inr cells))
       \<and> (\<exists>b1 y. toggleFlag cells r c = Inr b1 \<and> cellAt b1 r c = Inr y
             \<and> \<not> (isFlagged y \<and> isQuestioned y)
             \<and> (isQuestioned x \<and> \<not> isFlagged x \<longrightarrow> isFlagged y \<and> \<not> isQuestioned y))"
  using assms
  by (auto simp: toggleFlag_def toggleQuestion_def Let_def cellAt_setCell_same setCell_setCell setCell_same)

theorem toggle_involution_witness:
  "cellAt exOpen 0 0 = Inr (createEmptyCell 0 0)
   \<and> (\<exists>b1. toggleFlag exOpen 0 0 = Inr b1 \<and> toggleFlag b1 0 0 = Inr exOpen)
   \<and> (\<exists>b2. toggleQuestion exOpen 0 0 = Inr b2 \<and> toggleQuestion b2 0 0 = Inr exOpen)
   \<and> cellAt exQuestioned 0 0 = Inr ((createEmptyCell 0 0)\<lparr>isQuestioned := True\<rparr>)
   \<and> (\<exists>b1 y. toggleFlag exQuestioned 0 0 = Inr b1 \<and> cellAt b1 0 0 = Inr y
          \<and> isFlagged y \<and> \<not> isQuestioned y)"
proof -
  have a: "cellAt exOpen 0 0 = Inr (createEmptyCell 0 0)"
    and b: "cellAt exQuestioned 0 0 = Inr ((createEmptyCell 0 0)\<lparr>isQuestioned := True\<rparr>)"
    by (simp_all add: cellAt_def exOpen_def exQuestioned_def)
  have "(\<exists>b1. toggleFlag exOpen 0 0 = Inr b1 \<and> toggleFlag b1 0 0 = Inr exOpen)
      \<and> (\<exists>b2. toggleQuestion exOpen 0 0 = Inr b2 \<and> toggleQuestion b2 0 0 = Inr exOpen)"
    using toggle_involution [OF a] by (simp add: createEmptyCell_def)
  moreover have "\<exists>b1 y. toggleFlag exQuestioned 0 0 = Inr b1 \<and> cellAt b1 0 0 = Inr y
          \<and> isFlagged y \<and> \<not> isQuestioned y"
    using toggle_involution [OF b] by (simp add: createEmptyCell_def) blast
  ultimately show ?thesis using a b by blast
qed

text \<open>
  Claim C9. The flood fill of \<open>revealCell\<close> terminates on every rectangular board and
  for every position: the number of hidden cells is at most \<open>rows * cols\<close>, every depth
  above it lets the call return a board, the returned board has no more hidden cells,
  and strictly fewer when the call reveals the clicked cell, which is what each nested
  call starts from.
\<close>

theorem revealCell_terminates:
  assumes "rect cells"
  shows "hiddenCount cells \<le> length cells * length (hd cells)
       \<and> (\<forall>d > hiddenCount cells.
            \<exists>cells'. revealCell d cells r c = Some (Inr cells')
              \<and> hiddenCount cells' \<le> hiddenCount cells
              \<and> (hiddenUnflagged cells (r, c) \<longrightarrow> hiddenCount cells' < hiddenCount cells))"
proof -
  have "hiddenCount cells \<le> length (concat cells)" by (simp add: hiddenCount_def)
  then have bound: "hiddenCount cells \<le> length cells * length (hd cells)"
    using rect_length_concat [OF assms] by simp
  have "\<exists>cells'. revealCell d cells r c = Some (Inr cells')
              \<and> hiddenCount cells' \<le> hiddenCount cells
              \<and> (hiddenUnflagged cells (r, c) \<longrightarrow> hiddenCount cells' < hiddenCount cells)"
    if d: "hiddenCount cells < d" for d
  proof -
    from revealCell_flood [OF assms d, of r c]
    obtain cells' where res: "revealCell d cells r c = Some (Inr cells')"
      and spec: "floodSpec cells (r, c) cells'" by blast
    from spec have ro: "revealsOnly cells cells'" by (simp add: floodSpec_def)
    have "hiddenCount cells' < hiddenCount cells" if hu: "hiddenUnflagged cells (r, c)"
    proof -
      from hu have inb: "inBoard cells (r, c)" and hid: "\<not> isRevealed (cellOf cells (r, c))"
        by (simp_all add: hiddenUnflagged_def)
      from spec inb floodReach.start [OF hu] have "isRevealed (cellOf cells' (r, c))"
        unfolding floodSpec_def by blast
      with hid inBoard_nat(1,2) [OF assms inb] ro show ?thesis
        by (intro hiddenCount_less [of cells cells' "nat r" "nat c"]) (simp_all add: cellOf_def)
    qed
    with res revealsOnly_hiddenCount [OF ro] show ?thesis by blast
  qed
  with bound show ?thesis by blast
qed

theorem revealCell_terminates_witness:
  "rect exOpen \<and> hiddenCount exOpen \<le> 3 \<and> hiddenUnflagged exOpen (0, 0)
   \<and> (\<exists>cells'. revealCell 4 exOpen 0 0 = Some (Inr cells') \<and> hiddenCount cells' < hiddenCount exOpen)"
proof -
  have hu: "hiddenUnflagged exOpen (0, 0)"
    by (simp add: hiddenUnflagged_def inBoard_def cellOf_def ex_defs run_defs)
  have d: "hiddenCount exOpen < 4" by (simp add: exOpen_hidden)
  from revealCell_terminates [OF exOpen_rect, of 0 0] d hu
  have "\<exists>cells'. revealCell 4 exOpen 0 0 = Some (Inr cells') \<and> hiddenCount cells' < hiddenCount exOpen"
    by blast
  with exOpen_rect exOpen_hidden hu show ?thesis by simp
qed

text \<open>
  Claim C10. On a rectangular board, whatever \<open>revealCell\<close> returns is a board of the
  same shape in which every cell has the \<open>isMine\<close>, \<open>isFlagged\<close>, \<open>isQuestioned\<close>,
  \<open>neighborMines\<close>, \<open>id\<close>, \<open>row\<close>, \<open>col\<close> and \<open>isExploded\<close> it had, and is
  revealed if it was.
\<close>

theorem revealCell_frame:
  assumes "rect cells" and "revealCell d cells r c = Some res"
  shows "\<exists>cells'. res = Inr cells' \<and> length cells' = length cells
           \<and> (\<forall>i < length cells. length (cells' ! i) = length (cells ! i))
           \<and> (\<forall>i j x. cellAt cells i j = Inr x \<longrightarrow>
                (\<exists>y. cellAt cells' i j = Inr y
                   \<and> isMine y = isMine x \<and> isFlagged y = isFlagged x
                   \<and> isQuestioned y = isQuestioned x \<and> neighborMines y = neighborMines x
                   \<and> id_cell y = id_cell x \<and> row y = row x \<and> col y = col x
                   \<and> isExploded y = isExploded x
                   \<and> (isRevealed x \<longrightarrow> isRevealed y)))"
proof -
  from revealCell_result [OF assms]
  obtain cells' where res: "res = Inr cells'" and spec: "floodSpec cells (r, c) cells'" by blast
  from spec have ro: "revealsOnly cells cells'" by (simp add: floodSpec_def)
  have "\<exists>y. cellAt cells' i j = Inr y
           \<and> isMine y = isMine x \<and> isFlagged y = isFlagged x
           \<and> isQuestioned y = isQuestioned x \<and> neighborMines y = neighborMines x
           \<and> id_cell y = id_cell x \<and> row y = row x \<and> col y = col x
           \<and> isExploded y = isExploded x
           \<and> (isRevealed x \<longrightarrow> isRevealed y)"
    if at: "cellAt cells i j = Inr x" for i j x
  proof -
    from at have i: "0 \<le> i" "nat i < length cells" and j: "0 \<le> j" "nat j < length (cells ! nat i)"
      and x: "x = cells ! nat i ! nat j"
      by (auto simp: cellAt_Inr_iff)
    from revealsOnly_nth [OF ro i(2) j(2)] have le: "cellLe x (cells' ! nat i ! nat j)" by (simp add: x)
    have "cellAt cells' i j = Inr (cells' ! nat i ! nat j)"
      using i j revealsOnly_length [OF ro] revealsOnly_row_length [OF ro i(2)]
      by (simp add: cellAt_def nat_less_iff)
    with cellLe_fields [OF le] show ?thesis by simp
  qed
  with res revealsOnly_length [OF ro] revealsOnly_row_length [OF ro] show ?thesis by blast
qed

theorem revealCell_frame_witness:
  "rect exOpen \<and> revealCell 4 exOpen 0 0 = Some (Inr (map (map (\<lambda>x. x\<lparr>isRevealed := True\<rparr>)) exOpen))
   \<and> cellAt exOpen 0 1 = Inr (createEmptyCell 0 1)
   \<and> (\<exists>y. cellAt (map (map (\<lambda>x. x\<lparr>isRevealed := True\<rparr>)) exOpen) 0 1 = Inr y
          \<and> isMine y = isMine (createEmptyCell 0 1) \<and> id_cell y = id_cell (createEmptyCell 0 1))"
proof -
  have run: "revealCell 4 exOpen 0 0 = Some (Inr (map (map (\<lambda>x. x\<lparr>isRevealed := True\<rparr>)) exOpen))"
    by (simp add: ex_defs run_defs)
  have at: "cellAt exOpen 0 1 = Inr (createEmptyCell 0 1)"
    by (simp add: cellAt_def exOpen_def)
  from revealCell_frame [OF exOpen_rect run] at
  have "\<exists>y. cellAt (map (map (\<lambda>x. x\<lparr>isRevealed := True\<rparr>)) exOpen) 0 1 = Inr y
          \<and> isMine y = isMine (createEmptyCell 0 1) \<and> id_cell y = id_cell (createEmptyCell 0 1)"
    by blast
  with exOpen_rect run at show ?thesis by blast
qed

end
